theory Spec2Isabelle
  imports Main "HOL-Library.Word"
begin

section \<open>yaets: a shallow embedding of the tracing library\<close>

text \<open>
  The development follows \<^verbatim>\<open>src/yaets/tracing.cpp\<close> and
  \<^verbatim>\<open>include/yaets/tracing.hpp\<close>. Every C++ member function becomes a HOL
  function on a record of the object's fields. The clock
  (\<^verbatim>\<open>high_resolution_clock::now().time_since_epoch()\<close>) is an input of the
  environment: each function that reads it takes the instant read as an argument.
\<close>

subsection \<open>Data model\<close>

text \<open>
  \<^verbatim>\<open>std::chrono::nanoseconds\<close> holds a signed 64-bit tick count. It is a
  \<open>64 word\<close> read through \<open>sint\<close>; \<open>-\<close> on words is the subtraction the
  machine performs on that representation. Where the exact difference does not fit
  (signed overflow, undefined in C++) the model wraps around as the hardware does; no
  statement below depends on the value produced there, other than that it cannot be
  the exact difference.
\<close>

type_synonym nanoseconds = "64 word"

record TraceEvent =
  trace_name :: string
  start_time :: nanoseconds
  end_time :: nanoseconds

subsection \<open>TraceGuard::extract\_trace\_name\<close>

text \<open>
  \<^verbatim>\<open>std::string::find(c)\<close>: the index of the first occurrence, \<open>None\<close> for
  \<^verbatim>\<open>npos\<close>. \<^verbatim>\<open>std::string::rfind(c)\<close>: the index of the last occurrence.
\<close>

fun str_find :: "char \<Rightarrow> string \<Rightarrow> nat option" where
  "str_find c [] = None"
| "str_find c (x # xs) = (if x = c then Some 0 else map_option Suc (str_find c xs))"

fun str_rfind :: "char \<Rightarrow> string \<Rightarrow> nat option" where
  "str_rfind c [] = None"
| "str_rfind c (x # xs) =
     (case str_rfind c xs of
        Some i \<Rightarrow> Some (Suc i)
      | None \<Rightarrow> if x = c then Some 0 else None)"

text \<open>
  \<^verbatim>\<open>result.substr(0, pos)\<close> is \<open>take pos\<close> and \<^verbatim>\<open>result.substr(pos + 1)\<close> is
  \<open>drop (pos + 1)\<close>; both positions come from a successful search, so neither call
  can throw \<^verbatim>\<open>std::out_of_range\<close>.
\<close>

definition extract_trace_name :: "string \<Rightarrow> string" where
  "extract_trace_name function_signature =
     (let result = function_signature;
          result = (case str_find (CHR ''('') result of
                      Some pos \<Rightarrow> take pos result
                    | None \<Rightarrow> result);
          result = (case str_rfind (CHR '' '') result of
                      Some pos \<Rightarrow> drop (pos + 1) result
                    | None \<Rightarrow> result)
      in result)"

text \<open>
  The wording of the specification, for comparison: drop everything from the first
  opening parenthesis onward, then keep only what follows the last remaining space.
\<close>

definition truncate_at_paren :: "string \<Rightarrow> string" where
  "truncate_at_paren s = takeWhile (\<lambda>c. c \<noteq> CHR ''('') s"

definition after_last_space :: "string \<Rightarrow> string" where
  "after_last_space s = rev (takeWhile (\<lambda>c. c \<noteq> CHR '' '') (rev s))"

definition extract_trace_name_spec :: "string \<Rightarrow> string" where
  "extract_trace_name_spec s = after_last_space (truncate_at_paren s)"

subsection \<open>TraceSession\<close>

text \<open>
  Field names drop the trailing underscore of the C++ members (\<^verbatim>\<open>filename_\<close>,
  \<^verbatim>\<open>session_start_time_\<close>), which is not an identifier here.
  The session owns the queue, the flag \<^verbatim>\<open>running\<close>, the reference instant and
  the consumer thread. The thread is represented by its program counter inside
  \<^verbatim>\<open>trace_consumer\<close>; the destination is represented by its content
  \<open>trace_file\<close>. The opening of the destination, the first statement of the
  thread, is taken as done and successful, and every write as successful (the source
  checks neither).
\<close>

datatype consumer_pc = AtLoopTest | AtWait | Exited

record TraceSession =
  trace_queue :: "TraceEvent list"
  consumer_thread :: consumer_pc
  running :: bool
  filename :: string
  session_start_time :: nanoseconds
  trace_file :: string
  file_closed :: bool

definition TraceSession_init :: "string \<Rightarrow> nanoseconds \<Rightarrow> TraceSession" where
  "TraceSession_init file now =
     \<lparr>trace_queue = [], consumer_thread = AtLoopTest, running = True,
      filename = file, session_start_time = now,
      trace_file = [], file_closed = False\<rparr>"

definition register_trace ::
  "string \<Rightarrow> nanoseconds \<Rightarrow> nanoseconds \<Rightarrow> TraceSession \<Rightarrow> TraceSession" where
  "register_trace name start_t end_t s =
     (let event = \<lparr>trace_name = name,
                    start_time = start_t - session_start_time s,
                    end_time = end_t - session_start_time s\<rparr>
      in s\<lparr>trace_queue := trace_queue s @ [event]\<rparr>)"

text \<open>
  \<^verbatim>\<open>operator<<\<close> on the tick count prints a signed decimal numeral.
\<close>

fun dec_digits :: "nat \<Rightarrow> string" where
  "dec_digits n =
     (if n < 10 then [''0123456789'' ! n]
      else dec_digits (n div 10) @ [''0123456789'' ! (n mod 10)])"

definition show_count :: "int \<Rightarrow> string" where
  "show_count i = (if i < 0 then CHR ''-'' # dec_digits (nat (- i)) else dec_digits (nat i))"

definition trace_line :: "TraceEvent \<Rightarrow> string" where
  "trace_line event =
     trace_name event @ '' '' @ show_count (sint (start_time event))
       @ '' '' @ show_count (sint (end_time event)) @ [CHR 0x0A]"

text \<open>The inner loop of the consumer: pop the front event and write its line.\<close>

fun drain_queue :: "TraceEvent list \<Rightarrow> string \<Rightarrow> string" where
  "drain_queue [] file = file"
| "drain_queue (event # queue) file = drain_queue queue (file @ trace_line event)"

text \<open>
  One atomic step of \<^verbatim>\<open>trace_consumer\<close>. At the loop test the thread reads
  \<^verbatim>\<open>running || !trace_queue.empty()\<close> (without the mutex; the read is taken
  as atomic) and either enters the body or closes the file and exits. In the body it
  sleeps in \<^verbatim>\<open>cv.wait\<close> until the predicate
  \<^verbatim>\<open>!trace_queue.empty() || !running\<close> holds, then drains the whole queue with
  the mutex held (so no \<^verbatim>\<open>register_trace\<close> interleaves with the draining) and
  returns to the loop test. \<open>None\<close> means that the thread cannot move: it is
  blocked in the wait, or it has exited.

  The wait is enabled whenever its predicate holds: the delivery of the notifications
  (\<^verbatim>\<open>notify_one\<close>, \<^verbatim>\<open>notify_all\<close>) is not modelled. Every run of the
  source is a run of this model, so what holds of all runs here holds of the source.
  The converse is not claimed: a step of a waiting consumer here stands for a wake-up
  that the source delivers only if the notification is not lost, so the model says
  nothing about whether a thread that waits for the consumer is ever served.
\<close>

definition consumer_step :: "TraceSession \<Rightarrow> TraceSession option" where
  "consumer_step s =
     (case consumer_thread s of
        AtLoopTest \<Rightarrow>
          if running s \<or> trace_queue s \<noteq> []
          then Some (s\<lparr>consumer_thread := AtWait\<rparr>)
          else Some (s\<lparr>consumer_thread := Exited, file_closed := True\<rparr>)
      | AtWait \<Rightarrow>
          if trace_queue s \<noteq> [] \<or> \<not> running s
          then Some (s\<lparr>trace_file := drain_queue (trace_queue s) (trace_file s),
                       trace_queue := [], consumer_thread := AtLoopTest\<rparr>)
          else None
      | Exited \<Rightarrow> None)"

text \<open>
  Several threads: a schedule is the list of the atomic actions in the order in which
  they take effect. \<open>Register\<close> is a call of \<^verbatim>\<open>register_trace\<close> by any
  producer (the push happens under the mutex). \<open>StopEnter\<close> is the first half of
  \<^verbatim>\<open>stop()\<close>, the test and the clearing of \<^verbatim>\<open>running\<close>; \<open>JoinReturn\<close>
  is the return of its \<^verbatim>\<open>join()\<close>, possible only once the consumer has exited.
  \<open>exec\<close> is \<open>None\<close> for a schedule that asks a blocked thread to move.
\<close>

datatype action =
  Register string nanoseconds nanoseconds
| ConsumerStep
| StopEnter
| JoinReturn

fun step :: "action \<Rightarrow> TraceSession \<Rightarrow> TraceSession option" where
  "step (Register name start_t end_t) s = Some (register_trace name start_t end_t s)"
| "step ConsumerStep s = consumer_step s"
| "step StopEnter s = Some (if running s then s\<lparr>running := False\<rparr> else s)"
| "step JoinReturn s = (if consumer_thread s = Exited then Some s else None)"

fun exec :: "action list \<Rightarrow> TraceSession \<Rightarrow> TraceSession option" where
  "exec [] s = Some s"
| "exec (a # as) s = (case step a s of None \<Rightarrow> None | Some s' \<Rightarrow> exec as s')"

text \<open>
  The events a schedule submits, in order, as offsets from the reference instant.
\<close>

fun submitted :: "nanoseconds \<Rightarrow> action list \<Rightarrow> TraceEvent list" where
  "submitted ref [] = []"
| "submitted ref (Register name start_t end_t # as) =
     \<lparr>trace_name = name, start_time = start_t - ref, end_time = end_t - ref\<rparr>
       # submitted ref as"
| "submitted ref (a # as) = submitted ref as"

text \<open>
  \<^verbatim>\<open>stop()\<close> seen by its caller. When \<^verbatim>\<open>running\<close> is already false the
  call returns at once and does nothing. Otherwise the caller clears
  \<^verbatim>\<open>running\<close>, notifies and waits in \<^verbatim>\<open>join()\<close>; \<open>during\<close> lists
  the actions of the other threads (the steps of the consumer, the calls of the
  producers) that take effect before the join returns. The result is \<open>None\<close>
  when the join cannot return after these actions, the consumer not having exited.

  The function takes \<open>during\<close> as given and does not say that a schedule exists
  after which the join returns. In the source it need not: \<^verbatim>\<open>stop()\<close> clears
  \<^verbatim>\<open>running\<close> and calls \<^verbatim>\<open>notify_all()\<close> without holding
  \<^verbatim>\<open>queue_mutex\<close>, so both can fall between the consumer's test of the wait
  predicate and its going to sleep; the notification is then lost, the consumer sleeps
  on, and \<^verbatim>\<open>join()\<close> does not return. The destructor calls
  \<^verbatim>\<open>stop()\<close>.
\<close>

definition TraceSession_stop :: "action list \<Rightarrow> TraceSession \<Rightarrow> TraceSession option" where
  "TraceSession_stop during s =
     (if running s then exec (StopEnter # during @ [JoinReturn]) s else Some s)"

definition TraceSession_destructor :: "action list \<Rightarrow> TraceSession \<Rightarrow> TraceSession option" where
  "TraceSession_destructor during s = TraceSession_stop during s"

text \<open>
  The reader's view of the destination: the lines \<^verbatim>\<open>std::getline\<close> returns
  one after the other, without their terminators.
\<close>

fun read_lines :: "string \<Rightarrow> string \<Rightarrow> string list" where
  "read_lines cur [] = (if cur = [] then [] else [cur])"
| "read_lines cur (c # cs) =
     (if c = CHR 0x0A then cur # read_lines [] cs else read_lines (cur @ [c]) cs)"

definition line_fields :: "TraceEvent \<Rightarrow> string" where
  "line_fields event =
     trace_name event @ '' '' @ show_count (sint (start_time event))
       @ '' '' @ show_count (sint (end_time event))"

subsection \<open>NamedSharedTrace\<close>

text \<open>
  \<^verbatim>\<open>size_t\<close> is an unsigned 64-bit integer: the counters are naturals and the
  wrap-around of \<^verbatim>\<open>++\<close> and \<^verbatim>\<open>--\<close> is written out.
\<close>

definition SIZE_RANGE :: nat where
  "SIZE_RANGE = 2 ^ 64"

definition size_t_inc :: "nat \<Rightarrow> nat" where
  "size_t_inc x = (x + 1) mod SIZE_RANGE"

definition size_t_dec :: "nat \<Rightarrow> nat" where
  "size_t_dec x = (x + (SIZE_RANGE - 1)) mod SIZE_RANGE"

definition TRACE_SIZE_INIT :: nat where
  "TRACE_SIZE_INIT = 100"

text \<open>
  The member \<^verbatim>\<open>session_\<close> is a reference: the record keeps the address of the
  session, and \<^verbatim>\<open>end()\<close> receives and returns the state of the session found
  there. The members are \<^verbatim>\<open>session_\<close>, \<^verbatim>\<open>trace_name_\<close>,
  \<^verbatim>\<open>start_times_\<close>, \<^verbatim>\<open>counter_push_\<close>, \<^verbatim>\<open>counter_pop_\<close> and
  \<^verbatim>\<open>elements_\<close>.
\<close>

record NamedSharedTrace =
  session :: nat
  shared_trace_name :: string
  start_times :: "nanoseconds list"
  counter_push :: nat
  counter_pop :: nat
  elements :: nat

definition NamedSharedTrace_init :: "nat \<Rightarrow> string \<Rightarrow> NamedSharedTrace" where
  "NamedSharedTrace_init sess name =
     \<lparr>session = sess, shared_trace_name = name,
      start_times = replicate TRACE_SIZE_INIT 0,
      counter_push = 0, counter_pop = 0, elements = 0\<rparr>"

definition warning_full :: string where
  "warning_full = ''Warning: Start times vector is full. Cannot start new trace.''"

definition warning_unmatched :: string where
  "warning_unmatched = ''Warning: No matching start() call for end() - ignoring.''"

text \<open>
  Both functions run with \<^verbatim>\<open>trace_mutex_\<close> held, so each is one atomic step.
  They return the lines written to \<^verbatim>\<open>std::cerr\<close>. The vector is indexed and
  the remainder taken only after the guard: an index outside the vector or a vector of
  size 0 there would be undefined behaviour in C++ (here \<open>xs[i := v]\<close> leaves the
  list as it is and \<open>xs ! i\<close> is unspecified); the invariant below excludes both.
\<close>

definition NamedSharedTrace_start ::
  "nanoseconds \<Rightarrow> NamedSharedTrace \<Rightarrow> NamedSharedTrace \<times> string list" where
  "NamedSharedTrace_start now t =
     (if elements t \<ge> length (start_times t) then (t, [warning_full])
      else
        let t = t\<lparr>elements := size_t_inc (elements t)\<rparr>;
            t = t\<lparr>start_times := (start_times t)[counter_push t := now]\<rparr>;
            t = t\<lparr>counter_push := size_t_inc (counter_push t) mod length (start_times t)\<rparr>
        in (t, []))"

definition NamedSharedTrace_end ::
  "nanoseconds \<Rightarrow> NamedSharedTrace \<Rightarrow> TraceSession
     \<Rightarrow> NamedSharedTrace \<times> TraceSession \<times> string list" where
  "NamedSharedTrace_end now t s =
     (if elements t = 0 then (t, s, [warning_unmatched])
      else
        let end_t = now;
            s = register_trace (shared_trace_name t) (start_times t ! counter_pop t) end_t s;
            t = t\<lparr>counter_pop := size_t_inc (counter_pop t) mod length (start_times t)\<rparr>;
            t = t\<lparr>elements := size_t_dec (elements t)\<rparr>
        in (t, s, []))"

text \<open>A sequence of calls on one shared trace, each with the instant its clock read.\<close>

datatype trace_call = CallStart nanoseconds | CallEnd nanoseconds

fun run_calls ::
  "trace_call list \<Rightarrow> NamedSharedTrace \<times> TraceSession \<times> string list
     \<Rightarrow> NamedSharedTrace \<times> TraceSession \<times> string list" where
  "run_calls [] cfg = cfg"
| "run_calls (CallStart now # cs) (t, s, err) =
     (case NamedSharedTrace_start now t of
        (t', w) \<Rightarrow> run_calls cs (t', s, err @ w))"
| "run_calls (CallEnd now # cs) (t, s, err) =
     (case NamedSharedTrace_end now t s of
        (t', s', w) \<Rightarrow> run_calls cs (t', s', err @ w))"

text \<open>
  The invariants of the ring buffer. \<open>capacity\<close> is \<^verbatim>\<open>start_times_.size()\<close>.
\<close>

definition capacity :: "NamedSharedTrace \<Rightarrow> nat" where
  "capacity t = length (start_times t)"

definition live_count_ok :: "NamedSharedTrace \<Rightarrow> bool" where
  "live_count_ok t = (0 \<le> elements t \<and> elements t \<le> capacity t)"

definition cursors_coherent :: "NamedSharedTrace \<Rightarrow> bool" where
  "cursors_coherent t =
     (counter_push t = (counter_pop t + elements t) mod capacity t
      \<and> counter_push t < capacity t \<and> counter_pop t < capacity t)"

definition size_t_typed :: "NamedSharedTrace \<Rightarrow> bool" where
  "size_t_typed t =
     (capacity t < SIZE_RANGE \<and> elements t < SIZE_RANGE
      \<and> counter_push t < SIZE_RANGE \<and> counter_pop t < SIZE_RANGE)"

definition nst_inv :: "NamedSharedTrace \<Rightarrow> bool" where
  "nst_inv t = (size_t_typed t \<and> live_count_ok t \<and> cursors_coherent t)"

text \<open>
  The unmatched start instants, oldest first: the \<open>elements\<close> slots from the head
  cursor \<open>counter_pop\<close> on, around the ring.
\<close>

definition pending :: "NamedSharedTrace \<Rightarrow> nanoseconds list" where
  "pending t =
     map (\<lambda>i. start_times t ! ((counter_pop t + i) mod capacity t)) [0..<elements t]"

text \<open>
  The wording of the specification, for comparison: a bounded first-in first-out queue
  of start instants. A start on a full queue is dropped; an end takes the oldest start
  and submits the event; an end on an empty queue is dropped.
\<close>

fun fifo_run ::
  "nat \<Rightarrow> string \<Rightarrow> trace_call list \<Rightarrow> nanoseconds list \<times> TraceSession
     \<Rightarrow> nanoseconds list \<times> TraceSession" where
  "fifo_run cap name [] cfg = cfg"
| "fifo_run cap name (CallStart now # cs) (q, s) =
     fifo_run cap name cs (if length q \<ge> cap then q else q @ [now], s)"
| "fifo_run cap name (CallEnd now # cs) (q, s) =
     (case q of
        [] \<Rightarrow> fifo_run cap name cs (q, s)
      | oldest # rest \<Rightarrow> fifo_run cap name cs (rest, register_trace name oldest now s))"

subsection \<open>TraceRegistry\<close>

text \<open>
  The registry maps identifiers to the shared traces it owns (\<^verbatim>\<open>traces_\<close>).
  The sessions live outside it, in a store indexed by address; \<open>cerr\<close> collects
  the warnings. All three functions run with the registry's mutex held.
\<close>

record World =
  traces :: "string \<rightharpoonup> NamedSharedTrace"
  sessions :: "nat \<Rightarrow> TraceSession"
  cerr :: "string list"

definition registerTrace :: "string \<Rightarrow> nat \<Rightarrow> World \<Rightarrow> World" where
  "registerTrace ident sess w =
     w\<lparr>traces := (traces w)(ident \<mapsto> NamedSharedTrace_init sess ident)\<rparr>"

definition startTrace :: "string \<Rightarrow> nanoseconds \<Rightarrow> World \<Rightarrow> World" where
  "startTrace ident now w =
     (case traces w ident of
        None \<Rightarrow> w
      | Some t \<Rightarrow>
          (case NamedSharedTrace_start now t of
             (t', warn) \<Rightarrow> w\<lparr>traces := (traces w)(ident \<mapsto> t'), cerr := cerr w @ warn\<rparr>))"

definition endTrace :: "string \<Rightarrow> nanoseconds \<Rightarrow> World \<Rightarrow> World" where
  "endTrace ident now w =
     (case traces w ident of
        None \<Rightarrow> w
      | Some t \<Rightarrow>
          (case NamedSharedTrace_end now t (sessions w (session t)) of
             (t', s', warn) \<Rightarrow>
               w\<lparr>traces := (traces w)(ident \<mapsto> t'),
                 sessions := (sessions w)(session t := s'),
                 cerr := cerr w @ warn\<rparr>))"

subsection \<open>Auxiliary notions for the statements\<close>

text \<open>
  The event that results from matching a start instant with an end instant (the pair
  \<open>p\<close>) under a given name, as offsets from a reference instant.
\<close>

definition matched :: "string \<Rightarrow> nanoseconds \<Rightarrow> nanoseconds \<times> nanoseconds \<Rightarrow> TraceEvent" where
  "matched name ref p =
     \<lparr>trace_name = name, start_time = fst p - ref, end_time = snd p - ref\<rparr>"

text \<open>A shared trace with a buffer of two slots, for the worked examples.\<close>

definition small_trace :: NamedSharedTrace where
  "small_trace =
     \<lparr>session = 0, shared_trace_name = ''x'', start_times = [0, 0],
      counter_push = 0, counter_pop = 0, elements = 0\<rparr>"

text \<open>The world before any registration: no shared trace, no output.\<close>

definition empty_world :: World where
  "empty_world =
     \<lparr>traces = Map.empty, sessions = (\<lambda>a. TraceSession_init [] 0), cerr = []\<rparr>"

text \<open>The content of a destination that holds one line for each event of a list.\<close>

definition file_of :: "TraceEvent list \<Rightarrow> string" where
  "file_of events = concat (map trace_line events)"

text \<open>
  The equation of \<open>dec_digits\<close> has a conditional right-hand side: it is unfolded
  by hand where needed.
\<close>

declare dec_digits.simps [simp del]

section \<open>Name derivation\<close>


lemma str_find_None: "str_find c s = None \<longleftrightarrow> c \<notin> set s"
  by (induction s) auto

lemma str_rfind_None: "str_rfind c s = None \<longleftrightarrow> c \<notin> set s"
  by (induction s) (auto split: option.splits)

lemma str_find_takeWhile:
  "(case str_find c s of Some pos \<Rightarrow> take pos s | None \<Rightarrow> s) = takeWhile (\<lambda>x. x \<noteq> c) s"
  by (induction s) (auto split: option.splits)

lemma str_rfind_after:
  "(case str_rfind c s of Some pos \<Rightarrow> drop (pos + 1) s | None \<Rightarrow> s)
     = rev (takeWhile (\<lambda>x. x \<noteq> c) (rev s))"
proof (induction s)
  case Nil
  show ?case by simp
next
  case (Cons x xs)
  show ?case
  proof (cases "str_rfind c xs")
    case None
    then have "c \<notin> set xs" by (simp add: str_rfind_None)
    then have "takeWhile (\<lambda>x. x \<noteq> c) (rev xs @ [x]) = rev xs @ takeWhile (\<lambda>x. x \<noteq> c) [x]"
      by (intro takeWhile_append2) auto
    with None show ?thesis by simp
  next
    case (Some i)
    then have "c \<in> set xs" using str_rfind_None [of c xs] by auto
    then have "takeWhile (\<lambda>x. x \<noteq> c) (rev xs @ [x]) = takeWhile (\<lambda>x. x \<noteq> c) (rev xs)"
      by (intro takeWhile_append1 [where x = c]) auto
    with Some Cons.IH show ?thesis by simp
  qed
qed

lemma extract_trace_name_refines: "extract_trace_name s = extract_trace_name_spec s"
  by (simp add: extract_trace_name_def extract_trace_name_spec_def truncate_at_paren_def
      after_last_space_def str_find_takeWhile str_rfind_after Let_def)

lemma spec_result_no_paren: "CHR ''('' \<notin> set (extract_trace_name_spec s)"
proof -
  have "set (after_last_space t) \<subseteq> set t" for t
    unfolding after_last_space_def using set_takeWhileD by fastforce
  moreover have "CHR ''('' \<notin> set (truncate_at_paren s)"
    unfolding truncate_at_paren_def using set_takeWhileD by fastforce
  ultimately show ?thesis unfolding extract_trace_name_spec_def by blast
qed

lemma after_last_space_no_space: "CHR '' '' \<notin> set (after_last_space t)"
  unfolding after_last_space_def using set_takeWhileD by fastforce

lemma spec_result_unchanged: "CHR ''('' \<notin> set s \<Longrightarrow> CHR '' '' \<notin> set s \<Longrightarrow> extract_trace_name_spec s = s"
proof -
  assume a: "CHR ''('' \<notin> set s" and b: "CHR '' '' \<notin> set s"
  have 1: "takeWhile (\<lambda>c. c \<noteq> CHR ''('') s = s"
    using a by (intro takeWhile_eq_all_conv [THEN iffD2]) auto
  have 2: "takeWhile (\<lambda>c. c \<noteq> CHR '' '') (rev s) = rev s"
    using b by (intro takeWhile_eq_all_conv [THEN iffD2]) auto
  show ?thesis
    by (simp add: extract_trace_name_spec_def truncate_at_paren_def after_last_space_def 1 2)
qed

text \<open>
  Claim C8. For every signature string, \<open>extract_trace_name\<close> returns the string
  truncated before its first opening parenthesis (if there is one) and then reduced to
  what follows its last remaining space (if there is one). The result contains neither
  an opening parenthesis nor a space, and a string with neither character is returned
  unchanged.
\<close>

theorem extract_trace_name_correct:
  "extract_trace_name s = after_last_space (truncate_at_paren s)
   \<and> CHR ''('' \<notin> set (extract_trace_name s)
   \<and> CHR '' '' \<notin> set (extract_trace_name s)
   \<and> (CHR ''('' \<notin> set s \<and> CHR '' '' \<notin> set s \<longrightarrow> extract_trace_name s = s)"
proof -
  have eq: "extract_trace_name s = extract_trace_name_spec s"
    by (rule extract_trace_name_refines)
  have "CHR '' '' \<notin> set (extract_trace_name_spec s)"
    by (simp add: extract_trace_name_spec_def after_last_space_no_space)
  then show ?thesis
    using eq spec_result_no_paren [of s] spec_result_unchanged [of s]
    by (simp add: extract_trace_name_spec_def)
qed

theorem extract_trace_name_correct_witness:
  "CHR ''('' \<notin> set ''main'' \<and> CHR '' '' \<notin> set ''main''
   \<and> extract_trace_name ''main'' = ''main''
   \<and> extract_trace_name ''void ns::foo(int a, char b)'' = ''ns::foo''
   \<and> after_last_space (truncate_at_paren ''void ns::foo(int a, char b)'') = ''ns::foo''"
proof -
  have h: "CHR ''('' \<notin> set ''main'' \<and> CHR '' '' \<notin> set ''main''" by simp
  have "extract_trace_name ''main'' = ''main''"
    using extract_trace_name_correct [of "''main''"] h by blast
  moreover have "extract_trace_name ''void ns::foo(int a, char b)''
      = after_last_space (truncate_at_paren ''void ns::foo(int a, char b)'')"
    using extract_trace_name_correct [of "''void ns::foo(int a, char b)''"] by blast
  moreover have "after_last_space (truncate_at_paren ''void ns::foo(int a, char b)'') = ''ns::foo''"
    by (simp add: after_last_space_def truncate_at_paren_def)
  ultimately show ?thesis using h by simp
qed

section \<open>The offsets computed by register\_trace\<close>

lemma sint_diff_exact:
  fixes a b :: nanoseconds
  assumes "- (2 ^ 63) \<le> sint a - sint b" and "sint a - sint b < 2 ^ 63"
  shows "sint (a - b) = sint a - sint b"
proof -
  have "sint (a - b) = signed_take_bit 63 (sint a - sint b)"
    by (simp add: sint_word_ariths)
  also have "\<dots> = sint a - sint b"
    using assms by (simp add: signed_take_bit_int_eq_self)
  finally show ?thesis .
qed

text \<open>
  Claim C2, as stated, fails where a difference leaves the range of the 64-bit count.
  Take a session created when the clock reads \<open>1700000000000000000\<close> and a start
  instant of \<open>-2^63\<close>, the least value of the type: the exact difference is
  \<open>-10923372036854775808\<close>, below every value a
  \<^verbatim>\<open>std::chrono::nanoseconds\<close> holds, and the field enqueued reads
  \<open>7523372036854775808\<close>.
\<close>

theorem register_trace_offsets_counterexample:
  "sint (start_time (last (trace_queue
      (register_trace ''f'' (- (2 ^ 63)) 0 (TraceSession_init ''out'' 1700000000000000000)))))
     = 7523372036854775808
   \<and> sint (- (2 ^ 63) :: nanoseconds)
       - sint (session_start_time (TraceSession_init ''out'' 1700000000000000000))
     = - 10923372036854775808
   \<and> sint (start_time (last (trace_queue
      (register_trace ''f'' (- (2 ^ 63)) 0 (TraceSession_init ''out'' 1700000000000000000)))))
     \<noteq> sint (- (2 ^ 63) :: nanoseconds)
       - sint (session_start_time (TraceSession_init ''out'' 1700000000000000000))"
  by (simp add: register_trace_def TraceSession_init_def)

text \<open>
  Claim C2, amended. The reference instant of a session is the instant read at its
  construction. For every call \<open>register_trace name t0 t1\<close> whose two differences
  \<open>t0 - reference\<close> and \<open>t1 - reference\<close> lie in the range of the signed 64-bit
  count, exactly one event is appended to the queue; it carries the name and exactly
  these two differences, and its line prints them.
\<close>

theorem register_trace_offsets:
  assumes "- (2 ^ 63) \<le> sint t0 - sint (session_start_time s)"
    and "sint t0 - sint (session_start_time s) < 2 ^ 63"
    and "- (2 ^ 63) \<le> sint t1 - sint (session_start_time s)"
    and "sint t1 - sint (session_start_time s) < 2 ^ 63"
  shows "session_start_time (TraceSession_init file reference) = reference
    \<and> (\<exists>event. register_trace name t0 t1 s = s\<lparr>trace_queue := trace_queue s @ [event]\<rparr>
          \<and> trace_name event = name
          \<and> sint (start_time event) = sint t0 - sint (session_start_time s)
          \<and> sint (end_time event) = sint t1 - sint (session_start_time s)
          \<and> trace_line event =
               name @ '' '' @ show_count (sint t0 - sint (session_start_time s))
                 @ '' '' @ show_count (sint t1 - sint (session_start_time s)) @ [CHR 0x0A])"
proof -
  let ?event = "\<lparr>trace_name = name, start_time = t0 - session_start_time s,
                  end_time = t1 - session_start_time s\<rparr>"
  have "register_trace name t0 t1 s = s\<lparr>trace_queue := trace_queue s @ [?event]\<rparr>"
    by (simp add: register_trace_def)
  moreover have "sint (start_time ?event) = sint t0 - sint (session_start_time s)"
    using sint_diff_exact [OF assms(1,2)] by simp
  moreover have "sint (end_time ?event) = sint t1 - sint (session_start_time s)"
    using sint_diff_exact [OF assms(3,4)] by simp
  ultimately have "register_trace name t0 t1 s = s\<lparr>trace_queue := trace_queue s @ [?event]\<rparr>
      \<and> trace_name ?event = name
      \<and> sint (start_time ?event) = sint t0 - sint (session_start_time s)
      \<and> sint (end_time ?event) = sint t1 - sint (session_start_time s)
      \<and> trace_line ?event =
           name @ '' '' @ show_count (sint t0 - sint (session_start_time s))
             @ '' '' @ show_count (sint t1 - sint (session_start_time s)) @ [CHR 0x0A]"
    by (simp add: trace_line_def)
  then show ?thesis
    by (intro conjI exI [of _ ?event]) (simp_all add: TraceSession_init_def)
qed

theorem register_trace_offsets_witness:
  "- (2 ^ 63) \<le> sint (100 :: nanoseconds) - sint (session_start_time (TraceSession_init ''out'' 250))
   \<and> sint (100 :: nanoseconds) - sint (session_start_time (TraceSession_init ''out'' 250)) < 2 ^ 63
   \<and> - (2 ^ 63) \<le> sint (1234567 :: nanoseconds)
        - sint (session_start_time (TraceSession_init ''out'' 250))
   \<and> sint (1234567 :: nanoseconds) - sint (session_start_time (TraceSession_init ''out'' 250))
        < 2 ^ 63
   \<and> (\<exists>event. trace_queue (register_trace ''f'' 100 1234567 (TraceSession_init ''out'' 250))
          = [event]
        \<and> sint (start_time event) = - 150 \<and> sint (end_time event) = 1234317
        \<and> trace_line event = ''f -150 1234317\<newline>'')"
proof -
  let ?s = "TraceSession_init ''out'' 250"
  have r: "sint (session_start_time ?s) = 250" by (simp add: TraceSession_init_def)
  have h: "- (2 ^ 63) \<le> sint (100 :: nanoseconds) - sint (session_start_time ?s)"
    "sint (100 :: nanoseconds) - sint (session_start_time ?s) < 2 ^ 63"
    "- (2 ^ 63) \<le> sint (1234567 :: nanoseconds) - sint (session_start_time ?s)"
    "sint (1234567 :: nanoseconds) - sint (session_start_time ?s) < 2 ^ 63"
    by (simp_all add: r)
  from register_trace_offsets [OF h, of "''out''" 250 "''f''"] obtain event where
    e: "register_trace ''f'' 100 1234567 ?s = ?s\<lparr>trace_queue := trace_queue ?s @ [event]\<rparr>"
      "sint (start_time event) = sint (100 :: nanoseconds) - sint (session_start_time ?s)"
      "sint (end_time event) = sint (1234567 :: nanoseconds) - sint (session_start_time ?s)"
      "trace_line event =
         ''f'' @ '' '' @ show_count (sint (100 :: nanoseconds) - sint (session_start_time ?s))
           @ '' '' @ show_count (sint (1234567 :: nanoseconds) - sint (session_start_time ?s))
           @ [CHR 0x0A]"
    by blast
  have q: "trace_queue (register_trace ''f'' 100 1234567 ?s) = [event]"
    using e(1) by (simp add: TraceSession_init_def)
  have "sint (start_time event) = - 150" "sint (end_time event) = 1234317"
    "trace_line event = ''f -150 1234317\<newline>''"
    using e(2,3,4) by (simp_all add: r show_count_def dec_digits.simps)
  with q h show ?thesis by blast
qed

section \<open>The consumer\<close>


lemma drain_queue_eq: "drain_queue q f = f @ concat (map trace_line q)"
  by (induction q arbitrary: f) simp_all

section \<open>The session: schedules of producers, consumer and stop\<close>

lemma file_of_append [simp]: "file_of (xs @ ys) = file_of xs @ file_of ys"
  by (simp add: file_of_def)

lemma file_of_Nil [simp]: "file_of [] = []"
  by (simp add: file_of_def)

lemma exec_append:
  "exec (as @ bs) s = (case exec as s of None \<Rightarrow> None | Some s1 \<Rightarrow> exec bs s1)"
  by (induction as arbitrary: s) (auto split: option.splits)

lemma step_cases:
  assumes "step a s = Some s1"
  obtains (reg) name t0 t1 where "a = Register name t0 t1" "s1 = register_trace name t0 t1 s"
  | (enter) "a = ConsumerStep" "consumer_thread s = AtLoopTest" "running s \<or> trace_queue s \<noteq> []"
      "s1 = s\<lparr>consumer_thread := AtWait\<rparr>"
  | (exit) "a = ConsumerStep" "consumer_thread s = AtLoopTest" "\<not> running s" "trace_queue s = []"
      "s1 = s\<lparr>consumer_thread := Exited, file_closed := True\<rparr>"
  | (drain) "a = ConsumerStep" "consumer_thread s = AtWait"
      "s1 = s\<lparr>trace_file := trace_file s @ file_of (trace_queue s),
                trace_queue := [], consumer_thread := AtLoopTest\<rparr>"
  | (stop) "a = StopEnter" "s1 = s\<lparr>running := False\<rparr>"
  | (join) "a = JoinReturn" "consumer_thread s = Exited" "s1 = s"
proof (cases a)
  case (Register name t0 t1)
  with assms reg show ?thesis by auto
next
  case ConsumerStep
  with assms have cs: "consumer_step s = Some s1" by simp
  show ?thesis
  proof (cases "consumer_thread s")
    case AtLoopTest
    with cs ConsumerStep enter exit show ?thesis
      by (auto simp: consumer_step_def split: if_splits)
  next
    case AtWait
    with cs ConsumerStep drain show ?thesis
      by (auto simp: consumer_step_def drain_queue_eq file_of_def split: if_splits)
  next
    case Exited
    with cs show ?thesis by (simp add: consumer_step_def)
  qed
next
  case StopEnter
  with assms stop show ?thesis by (cases "running s") auto
next
  case JoinReturn
  with assms join show ?thesis by (auto split: if_splits)
qed

text \<open>What a schedule writes: a prefix of the queue followed by the events it submits.\<close>

lemma exec_written:
  "exec sched s = Some s' \<Longrightarrow>
     \<exists>n. trace_file s' = trace_file s
              @ file_of (take n (trace_queue s @ submitted (session_start_time s) sched))
        \<and> trace_queue s' = drop n (trace_queue s @ submitted (session_start_time s) sched)
        \<and> (\<not> running s \<and> consumer_thread s \<noteq> Exited \<and> consumer_thread s' = Exited
              \<longrightarrow> length (trace_queue s) \<le> n)"
proof (induction sched arbitrary: s)
  case Nil
  then have "s' = s" by simp
  then show ?case by (intro exI [of _ 0]) simp
next
  case (Cons a sched)
  from Cons.prems obtain s1 where st: "step a s = Some s1" and ex: "exec sched s1 = Some s'"
    by (auto split: option.splits)
  from Cons.IH [OF ex] obtain n where
    f: "trace_file s' = trace_file s1
          @ file_of (take n (trace_queue s1 @ submitted (session_start_time s1) sched))"
    and q: "trace_queue s' = drop n (trace_queue s1 @ submitted (session_start_time s1) sched)"
    and d: "\<not> running s1 \<and> consumer_thread s1 \<noteq> Exited \<and> consumer_thread s' = Exited
              \<longrightarrow> length (trace_queue s1) \<le> n"
    by blast
  from st show ?case
  proof (cases rule: step_cases)
    case (reg name t0 t1)
    with f q d show ?thesis
      by (intro exI [of _ n]) (auto simp: register_trace_def)
  next
    case enter
    with f q d show ?thesis by (intro exI [of _ n]) auto
  next
    case exit
    with f q d show ?thesis by (intro exI [of _ n]) auto
  next
    case drain
    with f q d show ?thesis
      by (intro exI [of _ "length (trace_queue s) + n"]) auto
  next
    case stop
    with f q d show ?thesis by (intro exI [of _ n]) auto
  next
    case join
    with f q d show ?thesis by (intro exI [of _ n]) auto
  qed
qed

lemma exec_before_stop:
  "exec sched s = Some s' \<Longrightarrow> StopEnter \<notin> set sched \<Longrightarrow> running s \<Longrightarrow>
     consumer_thread s \<noteq> Exited \<Longrightarrow>
     running s' \<and> consumer_thread s' \<noteq> Exited \<and> session_start_time s' = session_start_time s"
proof (induction sched arbitrary: s)
  case Nil
  then show ?case by simp
next
  case (Cons a sched)
  from Cons.prems(1) obtain s1 where st: "step a s = Some s1" and ex: "exec sched s1 = Some s'"
    by (auto split: option.splits)
  from st Cons.prems(2,3,4)
  have "running s1 \<and> consumer_thread s1 \<noteq> Exited \<and> session_start_time s1 = session_start_time s"
    by (cases rule: step_cases) (auto simp: register_trace_def)
  with Cons.IH [OF ex] Cons.prems(2) show ?case by simp
qed



lemmas session_defs = TraceSession_init_def register_trace_def consumer_step_def
  trace_line_def show_count_def line_fields_def file_of_def dec_digits.simps


lemma exec_not_running: "exec sched s = Some s' \<Longrightarrow> \<not> running s \<Longrightarrow> \<not> running s'"
proof (induction sched arbitrary: s)
  case Nil
  then show ?case by simp
next
  case (Cons a sched)
  from Cons.prems(1) obtain s1 where st: "step a s = Some s1" and ex: "exec sched s1 = Some s'"
    by (auto split: option.splits)
  from st Cons.prems(2) have "\<not> running s1"
    by (cases rule: step_cases) (auto simp: register_trace_def)
  with Cons.IH [OF ex] show ?case by simp
qed

lemma exec_closed:
  "exec sched s = Some s' \<Longrightarrow> (consumer_thread s = Exited \<longrightarrow> file_closed s) \<Longrightarrow>
     consumer_thread s' = Exited \<longrightarrow> file_closed s'"
proof (induction sched arbitrary: s)
  case Nil
  then show ?case by simp
next
  case (Cons a sched)
  from Cons.prems(1) obtain s1 where st: "step a s = Some s1" and ex: "exec sched s1 = Some s'"
    by (auto split: option.splits)
  from st Cons.prems(2) have "consumer_thread s1 = Exited \<longrightarrow> file_closed s1"
    by (cases rule: step_cases) (auto simp: register_trace_def)
  with Cons.IH [OF ex] show ?case by simp
qed

lemma stop_under_schedule:
  assumes "consumer_thread s \<noteq> Exited"
    and "exec (StopEnter # post @ [JoinReturn]) s = Some s2"
  shows "\<not> running s2 \<and> consumer_thread s2 = Exited \<and> file_closed s2
    \<and> (\<exists>k. trace_file s2 = trace_file s
           @ file_of (trace_queue s @ take k (submitted (session_start_time s) post))
         \<and> trace_queue s2 = drop k (submitted (session_start_time s) post))"
proof -
  let ?s1 = "s\<lparr>running := False\<rparr>"
  let ?R = "submitted (session_start_time s) post"
  from assms(2) obtain s1 where st: "step StopEnter s = Some s1"
    and e: "exec (post @ [JoinReturn]) s1 = Some s2"
    by (auto split: option.splits)
  from st have "s1 = ?s1" by (cases rule: step_cases) simp_all
  with e obtain s3 where e3: "exec post ?s1 = Some s3" and e4: "exec [JoinReturn] s3 = Some s2"
    by (auto simp: exec_append split: option.splits)
  from e4 have ex: "consumer_thread s3 = Exited" and s2: "s2 = s3"
    by (auto split: if_splits)
  have nr: "\<not> running s3" using exec_not_running [OF e3] by simp
  have cl: "file_closed s3" using exec_closed [OF e3] assms(1) ex by simp
  from exec_written [OF e3] assms(1) ex obtain n where
    f: "trace_file s3 = trace_file s @ file_of (take n (trace_queue s @ ?R))"
    and q: "trace_queue s3 = drop n (trace_queue s @ ?R)"
    and n: "length (trace_queue s) \<le> n"
    by auto
  let ?k = "n - length (trace_queue s)"
  have "trace_file s3 = trace_file s @ file_of (trace_queue s @ take ?k ?R)"
    using f n by simp
  moreover have "trace_queue s3 = drop ?k ?R"
    using q n by simp
  ultimately show ?thesis using nr cl ex s2 by blast
qed

lemma stop_needs_consumer_exit:
  "running s \<Longrightarrow> consumer_thread s \<noteq> Exited \<Longrightarrow> TraceSession_stop [] s = None"
  by (simp add: TraceSession_stop_def)

lemma stop_returns_stopped:
  assumes "TraceSession_stop during s = Some s'"
  shows "\<not> running s'"
proof (cases "running s")
  case True
  with assms have "exec (StopEnter # during @ [JoinReturn]) s = Some s'"
    by (simp add: TraceSession_stop_def)
  then obtain s1 where st: "step StopEnter s = Some s1"
    and e: "exec (during @ [JoinReturn]) s1 = Some s'"
    by (auto split: option.splits)
  from st have "\<not> running s1" by (cases rule: step_cases) simp_all
  with exec_not_running [OF e] show ?thesis by simp
next
  case False
  with assms show ?thesis by (simp add: TraceSession_stop_def)
qed

text \<open>
  Claim C7, as stated, fails for an event that is in the queue when \<open>stop()\<close>
  returns. A thread enters \<open>stop()\<close> on a fresh session; the consumer finds
  \<open>running\<close> false and the queue empty, closes the destination and exits; a
  producer submits \<open>late\<close>; the join returns. At that point the session is
  terminated and the destination closed, and the event queued at that point has not
  been drained: it is still in the queue and the destination is empty.
\<close>

theorem stop_leaves_late_event_counterexample:
  "TraceSession_stop [ConsumerStep, Register ''late'' 8 9] (TraceSession_init ''out'' 0)
     = Some \<lparr>trace_queue = [\<lparr>trace_name = ''late'', start_time = 8, end_time = 9\<rparr>],
             consumer_thread = Exited, running = False, filename = ''out'',
             session_start_time = 0, trace_file = [], file_closed = True\<rparr>"
  by (simp add: TraceSession_stop_def TraceSession_init_def register_trace_def
      consumer_step_def)

text \<open>
  Claim C7, amended. \<open>stop()\<close> is idempotent: whenever a call returns, the session
  is not running, and a second call (and the destructor, which calls it) returns at once
  with the state unchanged. Every session reached before the first \<open>stop()\<close> is
  running with its consumer alive. Whenever the first \<open>stop()\<close> on such a session
  returns, whatever the other threads did meanwhile (\<open>during\<close>), the session is
  terminated: \<open>running\<close> is false, the consumer has exited and the destination is
  closed; the destination has received, after what it held, one whole line for each
  event that was queued when \<open>stop()\<close> was called, in queue order, followed by the
  lines of the first \<open>k\<close> events submitted meanwhile; the events submitted
  meanwhile after these are what the queue holds at the return. Whether \<open>stop()\<close>
  returns is not part of the statement.
\<close>

theorem stop_idempotent:
  "(TraceSession_stop during s = Some s' \<longrightarrow>
      \<not> running s'
      \<and> TraceSession_stop again s' = Some s' \<and> TraceSession_destructor again s' = Some s')
   \<and> (exec pre (TraceSession_init file ref) = Some s \<and> StopEnter \<notin> set pre \<longrightarrow>
        running s \<and> consumer_thread s \<noteq> Exited)
   \<and> (running s \<and> consumer_thread s \<noteq> Exited \<and> TraceSession_stop during s = Some s' \<longrightarrow>
        \<not> running s' \<and> consumer_thread s' = Exited \<and> file_closed s'
        \<and> (\<exists>k. trace_file s' = trace_file s
               @ file_of (trace_queue s @ take k (submitted (session_start_time s) during))
             \<and> trace_queue s' = drop k (submitted (session_start_time s) during)))"
proof -
  have "\<not> running s'
      \<and> TraceSession_stop again s' = Some s' \<and> TraceSession_destructor again s' = Some s'"
    if "TraceSession_stop during s = Some s'"
    using stop_returns_stopped [OF that]
    by (simp add: TraceSession_stop_def TraceSession_destructor_def)
  moreover have "running s \<and> consumer_thread s \<noteq> Exited"
    if "exec pre (TraceSession_init file ref) = Some s \<and> StopEnter \<notin> set pre"
    using that exec_before_stop [of pre "TraceSession_init file ref" s]
    by (simp add: TraceSession_init_def)
  moreover have "\<not> running s' \<and> consumer_thread s' = Exited \<and> file_closed s'
      \<and> (\<exists>k. trace_file s' = trace_file s
             @ file_of (trace_queue s @ take k (submitted (session_start_time s) during))
           \<and> trace_queue s' = drop k (submitted (session_start_time s) during))"
    if "running s \<and> consumer_thread s \<noteq> Exited \<and> TraceSession_stop during s = Some s'"
  proof -
    from that have "running s" and "TraceSession_stop during s = Some s'"
      by simp_all
    then have "exec (StopEnter # during @ [JoinReturn]) s = Some s'"
      by (simp add: TraceSession_stop_def del: exec.simps)
    with that show ?thesis using stop_under_schedule [of s during s'] by blast
  qed
  ultimately show ?thesis by blast
qed

theorem stop_idempotent_witness:
  "exec [Register ''a'' 5 7, ConsumerStep, Register ''b'' 6 8] (TraceSession_init ''out'' 1)
     = Some \<lparr>trace_queue = [\<lparr>trace_name = ''a'', start_time = 4, end_time = 6\<rparr>,
                             \<lparr>trace_name = ''b'', start_time = 5, end_time = 7\<rparr>],
             consumer_thread = AtWait, running = True, filename = ''out'',
             session_start_time = 1, trace_file = [], file_closed = False\<rparr>
   \<and> StopEnter \<notin> set [Register ''a'' 5 7, ConsumerStep, Register ''b'' 6 8]
   \<and> TraceSession_stop [Register ''c'' 9 10, ConsumerStep, ConsumerStep, Register ''d'' 11 12]
        \<lparr>trace_queue = [\<lparr>trace_name = ''a'', start_time = 4, end_time = 6\<rparr>,
                        \<lparr>trace_name = ''b'', start_time = 5, end_time = 7\<rparr>],
         consumer_thread = AtWait, running = True, filename = ''out'',
         session_start_time = 1, trace_file = [], file_closed = False\<rparr>
     = Some \<lparr>trace_queue = [\<lparr>trace_name = ''d'', start_time = 10, end_time = 11\<rparr>],
             consumer_thread = Exited, running = False, filename = ''out'',
             session_start_time = 1,
             trace_file = ''a 4 6\<newline>b 5 7\<newline>c 8 9\<newline>'', file_closed = True\<rparr>
   \<and> TraceSession_stop [ConsumerStep]
        \<lparr>trace_queue = [\<lparr>trace_name = ''d'', start_time = 10, end_time = 11\<rparr>],
         consumer_thread = Exited, running = False, filename = ''out'',
         session_start_time = 1,
         trace_file = ''a 4 6\<newline>b 5 7\<newline>c 8 9\<newline>'', file_closed = True\<rparr>
     = Some \<lparr>trace_queue = [\<lparr>trace_name = ''d'', start_time = 10, end_time = 11\<rparr>],
             consumer_thread = Exited, running = False, filename = ''out'',
             session_start_time = 1,
             trace_file = ''a 4 6\<newline>b 5 7\<newline>c 8 9\<newline>'', file_closed = True\<rparr>
   \<and> TraceSession_destructor []
        \<lparr>trace_queue = [\<lparr>trace_name = ''d'', start_time = 10, end_time = 11\<rparr>],
         consumer_thread = Exited, running = False, filename = ''out'',
         session_start_time = 1,
         trace_file = ''a 4 6\<newline>b 5 7\<newline>c 8 9\<newline>'', file_closed = True\<rparr>
     = Some \<lparr>trace_queue = [\<lparr>trace_name = ''d'', start_time = 10, end_time = 11\<rparr>],
             consumer_thread = Exited, running = False, filename = ''out'',
             session_start_time = 1,
             trace_file = ''a 4 6\<newline>b 5 7\<newline>c 8 9\<newline>'', file_closed = True\<rparr>
   \<and> (\<exists>k. ''a 4 6\<newline>b 5 7\<newline>c 8 9\<newline>''
          = file_of ([\<lparr>trace_name = ''a'', start_time = 4, end_time = 6\<rparr>,
                      \<lparr>trace_name = ''b'', start_time = 5, end_time = 7\<rparr>]
                     @ take k [\<lparr>trace_name = ''c'', start_time = 8, end_time = 9\<rparr>,
                               \<lparr>trace_name = ''d'', start_time = 10, end_time = 11\<rparr>])
        \<and> [\<lparr>trace_name = ''d'', start_time = 10, end_time = 11\<rparr>]
          = drop k [\<lparr>trace_name = ''c'', start_time = 8, end_time = 9\<rparr>,
                    \<lparr>trace_name = ''d'', start_time = 10, end_time = 11\<rparr>])"
proof -
  let ?pre = "[Register ''a'' 5 7, ConsumerStep, Register ''b'' 6 8]"
  let ?during = "[Register ''c'' 9 10, ConsumerStep, ConsumerStep, Register ''d'' 11 12]"
  let ?a = "\<lparr>trace_name = ''a'', start_time = 4 :: nanoseconds, end_time = 6 :: nanoseconds\<rparr>"
  let ?b = "\<lparr>trace_name = ''b'', start_time = 5 :: nanoseconds, end_time = 7 :: nanoseconds\<rparr>"
  let ?c = "\<lparr>trace_name = ''c'', start_time = 8 :: nanoseconds, end_time = 9 :: nanoseconds\<rparr>"
  let ?d = "\<lparr>trace_name = ''d'', start_time = 10 :: nanoseconds, end_time = 11 :: nanoseconds\<rparr>"
  let ?s = "\<lparr>trace_queue = [?a, ?b], consumer_thread = AtWait, running = True,
     filename = ''out'', session_start_time = 1, trace_file = [], file_closed = False\<rparr>"
  let ?s' = "\<lparr>trace_queue = [?d], consumer_thread = Exited, running = False,
     filename = ''out'', session_start_time = 1,
     trace_file = ''a 4 6\<newline>b 5 7\<newline>c 8 9\<newline>'', file_closed = True\<rparr>"
  have p: "exec ?pre (TraceSession_init ''out'' 1) = Some ?s \<and> StopEnter \<notin> set ?pre"
    by (simp add: session_defs)
  have r: "TraceSession_stop ?during ?s = Some ?s'"
    by (simp add: TraceSession_stop_def session_defs)
  have sub: "submitted 1 ?during = [?c, ?d]" by simp
  from stop_idempotent [of ?during ?s ?s' "[ConsumerStep]" ?pre "''out''" 1] p r
  have h: "running ?s \<and> consumer_thread ?s \<noteq> Exited"
    and again: "TraceSession_stop [ConsumerStep] ?s' = Some ?s'"
    by blast+
  from stop_idempotent [of ?during ?s ?s' "[]" ?pre "''out''" 1] r
  have destr: "TraceSession_destructor [] ?s' = Some ?s'"
    by blast
  from stop_idempotent [of ?during ?s ?s' "[]" ?pre "''out''" 1] h r
  have "\<exists>k. trace_file ?s' = trace_file ?s
               @ file_of (trace_queue ?s @ take k (submitted (session_start_time ?s) ?during))
             \<and> trace_queue ?s' = drop k (submitted (session_start_time ?s) ?during)"
    by blast
  then have "\<exists>k. ''a 4 6\<newline>b 5 7\<newline>c 8 9\<newline>'' = file_of ([?a, ?b] @ take k [?c, ?d])
      \<and> [?d] = drop k [?c, ?d]"
    using sub by simp
  with p r again destr show ?thesis by blast
qed

lemma read_lines_line:
  "CHR 0x0A \<notin> set body \<Longrightarrow>
     read_lines cur (body @ CHR 0x0A # rest) = (cur @ body) # read_lines [] rest"
  by (induction body arbitrary: cur) auto

lemma dec_digits_chars: "set (dec_digits n) \<subseteq> set ''0123456789''"
proof (induction n rule: dec_digits.induct)
  case (1 n)
  have d: "''0123456789'' ! k \<in> set ''0123456789''" if "k < 10" for k
    using that by (intro nth_mem) simp
  show ?case
  proof (cases "n < 10")
    case True
    then show ?thesis using d [of n] by (subst dec_digits.simps) simp
  next
    case False
    have "n mod 10 < 10" by simp
    with "1.IH" [OF False] d [of "n mod 10"] False show ?thesis
      by (subst dec_digits.simps) simp
  qed
qed

lemma show_count_no_newline: "CHR 0x0A \<notin> set (show_count i)"
proof -
  have "CHR 0x0A \<notin> set ''0123456789''" by simp
  then have "CHR 0x0A \<notin> set (dec_digits n)" for n
    using dec_digits_chars [of n] by blast
  then show ?thesis by (simp add: show_count_def)
qed

lemma trace_line_fields: "trace_line e = line_fields e @ [CHR 0x0A]"
  by (simp add: trace_line_def line_fields_def)

lemma line_fields_no_newline:
  "CHR 0x0A \<notin> set (trace_name e) \<Longrightarrow> CHR 0x0A \<notin> set (line_fields e)"
  using show_count_no_newline by (simp add: line_fields_def)

lemma read_lines_file_of:
  "\<forall>e \<in> set events. CHR 0x0A \<notin> set (trace_name e) \<Longrightarrow>
     read_lines [] (file_of events) = map line_fields events"
proof (induction events)
  case Nil
  then show ?case by simp
next
  case (Cons e events)
  then have "CHR 0x0A \<notin> set (line_fields e)" by (simp add: line_fields_no_newline)
  from read_lines_line [OF this, of "[]" "file_of events"] Cons show ?case
    by (simp add: file_of_def trace_line_fields)
qed

lemma file_of_take_drop: "file_of (take n xs) @ file_of (drop n xs) = file_of xs"
  by (simp flip: file_of_append)

text \<open>
  Claim C1, amended. Take any schedule in which \<open>stop()\<close> is entered once, after the
  actions \<open>pre\<close>, and returns after the actions \<open>post\<close>. When \<open>stop()\<close> has
  returned, the destination holds exactly one line for each event submitted before
  \<open>stop()\<close> was entered, in the order of submission, followed by one line for each
  of the first \<open>k\<close> events submitted while it ran (the remaining ones stay in the
  queue); no line is lost among these, duplicated or cut. Each line is the name, the
  start offset and the end offset separated by single spaces, and a reader gets back
  these lines one by one provided no name contains a newline. When nothing is submitted
  while \<open>stop()\<close> runs, the destination holds exactly the lines of the events
  submitted before.
\<close>

theorem events_before_stop_written:
  assumes "exec (pre @ StopEnter # post @ [JoinReturn]) (TraceSession_init file ref) = Some s'"
    and "StopEnter \<notin> set pre"
  shows "\<exists>k. trace_file s' = file_of (submitted ref pre @ take k (submitted ref post))
    \<and> trace_queue s' = drop k (submitted ref post)
    \<and> ((\<forall>e \<in> set (submitted ref pre @ take k (submitted ref post)).
            CHR 0x0A \<notin> set (trace_name e)) \<longrightarrow>
          read_lines [] (trace_file s')
            = map line_fields (submitted ref pre @ take k (submitted ref post)))
    \<and> (submitted ref post = [] \<longrightarrow> trace_file s' = file_of (submitted ref pre))"
proof -
  let ?init = "TraceSession_init file ref"
  let ?P = "submitted ref pre" and ?R = "submitted ref post"
  from assms(1) obtain s1 where e1: "exec pre ?init = Some s1"
    and e2: "exec (StopEnter # post @ [JoinReturn]) s1 = Some s'"
    by (auto simp: exec_append split: option.splits)
  let ?s2 = "s1\<lparr>running := False\<rparr>"
  from e2 obtain s2 where st: "step StopEnter s1 = Some s2"
    and e2': "exec (post @ [JoinReturn]) s2 = Some s'"
    by (auto split: option.splits)
  from st have "s2 = ?s2" by (cases rule: step_cases) simp_all
  with e2' have "exec (post @ [JoinReturn]) ?s2 = Some s'" by simp
  then obtain s3 where e3: "exec post ?s2 = Some s3" and e4: "exec [JoinReturn] s3 = Some s'"
    by (auto simp: exec_append split: option.splits)
  from e4 have ex: "consumer_thread s3 = Exited" and s': "s' = s3"
    by (auto split: if_splits)
  have i: "running ?init" "consumer_thread ?init \<noteq> Exited" "session_start_time ?init = ref"
    "trace_queue ?init = []" "trace_file ?init = []"
    by (simp_all add: TraceSession_init_def)
  from exec_before_stop [OF e1 assms(2) i(1,2)] i(3)
  have b: "consumer_thread s1 \<noteq> Exited" "session_start_time s1 = ref" by simp_all
  from exec_written [OF e1] i obtain n1 where
    f1: "trace_file s1 = file_of (take n1 ?P)" and q1: "trace_queue s1 = drop n1 ?P"
    by auto
  from exec_written [OF e3] b ex obtain n2 where
    f3: "trace_file s3 = trace_file s1 @ file_of (take n2 (trace_queue s1 @ ?R))"
    and q3: "trace_queue s3 = drop n2 (trace_queue s1 @ ?R)"
    and n2: "length (trace_queue s1) \<le> n2"
    by auto
  let ?k = "n2 - length (trace_queue s1)"
  have "trace_file s3 = file_of (take n1 ?P) @ file_of (drop n1 ?P @ take ?k ?R)"
    using f3 f1 q1 n2 by simp
  then have f: "trace_file s' = file_of (?P @ take ?k ?R)"
    using s' file_of_take_drop [of n1 ?P] by simp
  have q: "trace_queue s' = drop ?k ?R"
    using q3 n2 s' by simp
  have "read_lines [] (trace_file s') = map line_fields (?P @ take ?k ?R)"
    if "\<forall>e \<in> set (?P @ take ?k ?R). CHR 0x0A \<notin> set (trace_name e)"
    using read_lines_file_of [OF that] f by simp
  with f q show ?thesis
    by (intro exI [of _ ?k]) auto
qed

theorem events_before_stop_written_witness:
  "exec ([Register ''a'' 5 7, ConsumerStep, Register ''b'' 8 9] @ StopEnter
          # [ConsumerStep, ConsumerStep] @ [JoinReturn]) (TraceSession_init ''out'' 0)
     = Some \<lparr>trace_queue = [], consumer_thread = Exited, running = False, filename = ''out'',
             session_start_time = 0, trace_file = ''a 5 7\<newline>b 8 9\<newline>'',
             file_closed = True\<rparr>
   \<and> StopEnter \<notin> set [Register ''a'' 5 7, ConsumerStep, Register ''b'' 8 9]
   \<and> ''a 5 7\<newline>b 8 9\<newline>''
       = file_of (submitted 0 [Register ''a'' 5 7, ConsumerStep, Register ''b'' 8 9])
   \<and> read_lines [] ''a 5 7\<newline>b 8 9\<newline>'' = [''a 5 7'', ''b 8 9'']"
proof -
  let ?pre = "[Register ''a'' 5 7, ConsumerStep, Register ''b'' 8 9]"
  let ?post = "[ConsumerStep, ConsumerStep]"
  let ?final = "\<lparr>trace_queue = [], consumer_thread = Exited, running = False,
     filename = ''out'', session_start_time = 0, trace_file = ''a 5 7\<newline>b 8 9\<newline>'',
     file_closed = True\<rparr>"
  have e: "exec (?pre @ StopEnter # ?post @ [JoinReturn]) (TraceSession_init ''out'' 0)
      = Some ?final"
    by (simp add: session_defs)
  have h: "StopEnter \<notin> set ?pre" by simp
  have n: "submitted 0 ?post = []" by simp
  from events_before_stop_written [OF e h] n
  have "trace_file ?final = file_of (submitted 0 ?pre)" by auto
  then have "''a 5 7\<newline>b 8 9\<newline>'' = file_of (submitted 0 ?pre)" by simp
  moreover have "read_lines [] ''a 5 7\<newline>b 8 9\<newline>'' = [''a 5 7'', ''b 8 9'']" by simp
  ultimately show ?thesis using e h by blast
qed

text \<open>
  Claim C1, as stated, fails for an event submitted while \<open>stop()\<close> is running.
  In the schedule below a producer submits \<open>a\<close>, a thread enters \<open>stop()\<close>, the
  consumer writes \<open>a\<close>, finds the queue empty and exits, a second producer submits
  \<open>b\<close>, and only then the join returns. Two events were submitted before
  \<open>stop()\<close> returned; the destination holds one line and \<open>b\<close> stays in the queue.
\<close>

theorem events_before_stop_returns_counterexample:
  "exec [Register ''a'' 5 7, StopEnter, ConsumerStep, ConsumerStep, ConsumerStep,
         Register ''b'' 8 9, JoinReturn] (TraceSession_init ''out'' 0)
     = Some \<lparr>trace_queue = [\<lparr>trace_name = ''b'', start_time = 8, end_time = 9\<rparr>],
             consumer_thread = Exited, running = False, filename = ''out'',
             session_start_time = 0, trace_file = ''a 5 7\<newline>'', file_closed = True\<rparr>
   \<and> length (submitted 0 [Register ''a'' 5 7, StopEnter, ConsumerStep, ConsumerStep,
         ConsumerStep, Register ''b'' 8 9]) = 2
   \<and> length (read_lines [] ''a 5 7\<newline>'') = 1"
  by (simp add: session_defs)

section \<open>The ring buffer of a shared trace\<close>


lemma size_t_inc_simp: "x + 1 < SIZE_RANGE \<Longrightarrow> size_t_inc x = x + 1"
  by (simp add: size_t_inc_def)

lemma size_t_dec_simp: "0 < x \<Longrightarrow> x < SIZE_RANGE \<Longrightarrow> size_t_dec x = x - 1"
proof -
  assume a: "0 < x" "x < SIZE_RANGE"
  then have "x + (SIZE_RANGE - 1) = (x - 1) + SIZE_RANGE" by simp
  then have "size_t_dec x = (x - 1) mod SIZE_RANGE"
    by (simp add: size_t_dec_def)
  with a show ?thesis by simp
qed

lemma start_reject:
  "capacity t \<le> elements t \<Longrightarrow> NamedSharedTrace_start now t = (t, [warning_full])"
  by (simp add: NamedSharedTrace_start_def capacity_def)

lemma start_accept:
  assumes "size_t_typed t" "elements t < capacity t" "counter_push t < capacity t"
  shows "NamedSharedTrace_start now t =
     (t\<lparr>elements := elements t + 1,
        start_times := (start_times t)[counter_push t := now],
        counter_push := (counter_push t + 1) mod capacity t\<rparr>, [])"
proof -
  have "elements t + 1 < SIZE_RANGE" "counter_push t + 1 < SIZE_RANGE"
    using assms by (auto simp: size_t_typed_def)
  then show ?thesis
    using assms by (simp add: NamedSharedTrace_start_def capacity_def size_t_inc_simp Let_def)
qed

lemma end_reject:
  "elements t = 0 \<Longrightarrow> NamedSharedTrace_end now t s = (t, s, [warning_unmatched])"
  by (simp add: NamedSharedTrace_end_def)

lemma end_accept:
  assumes "size_t_typed t" "0 < elements t" "counter_pop t < capacity t"
  shows "NamedSharedTrace_end now t s =
     (t\<lparr>counter_pop := (counter_pop t + 1) mod capacity t, elements := elements t - 1\<rparr>,
      register_trace (shared_trace_name t) (start_times t ! counter_pop t) now s, [])"
proof -
  have "counter_pop t + 1 < SIZE_RANGE" "elements t < SIZE_RANGE"
    using assms by (auto simp: size_t_typed_def)
  then show ?thesis
    using assms
    by (simp add: NamedSharedTrace_end_def capacity_def size_t_inc_simp size_t_dec_simp Let_def)
qed

lemma coherent_start:
  assumes "size_t_typed t" "cursors_coherent t" "elements t < capacity t"
  shows "cursors_coherent (fst (NamedSharedTrace_start now t))"
proof -
  have c: "0 < capacity t" using assms by simp
  have "(counter_push t + 1) mod capacity t = (counter_pop t + (elements t + 1)) mod capacity t"
    using assms by (simp add: cursors_coherent_def mod_Suc_eq)
  then show ?thesis
    using assms c by (simp add: start_accept cursors_coherent_def capacity_def)
qed

lemma coherent_end:
  assumes "size_t_typed t" "cursors_coherent t" "0 < elements t"
  shows "cursors_coherent (fst (NamedSharedTrace_end now t s))"
proof -
  have c: "0 < capacity t" using assms by (simp add: cursors_coherent_def)
  have "((counter_pop t + 1) mod capacity t + (elements t - 1)) mod capacity t
          = (counter_pop t + 1 + (elements t - 1)) mod capacity t"
    by (simp add: mod_add_left_eq)
  also have "\<dots> = (counter_pop t + elements t) mod capacity t"
    using assms by simp
  finally show ?thesis
    using assms c by (simp add: end_accept cursors_coherent_def capacity_def)
qed

lemma typed_start:
  assumes "size_t_typed t"
  shows "size_t_typed (fst (NamedSharedTrace_start now t))"
  using assms
  by (auto simp: NamedSharedTrace_start_def size_t_typed_def capacity_def size_t_inc_def Let_def
      intro: le_less_trans [OF mod_less_eq_dividend])

lemma typed_end:
  assumes "size_t_typed t"
  shows "size_t_typed (fst (NamedSharedTrace_end now t s))"
  using assms
  by (auto simp: NamedSharedTrace_end_def size_t_typed_def capacity_def size_t_inc_def
      size_t_dec_def Let_def SIZE_RANGE_def
      intro: le_less_trans [OF mod_less_eq_dividend])


lemma coherent_start_any:
  "size_t_typed t \<Longrightarrow> cursors_coherent t \<Longrightarrow> cursors_coherent (fst (NamedSharedTrace_start now t))"
  by (cases "elements t < capacity t") (simp_all add: coherent_start start_reject)

lemma coherent_end_any:
  "size_t_typed t \<Longrightarrow> cursors_coherent t \<Longrightarrow> cursors_coherent (fst (NamedSharedTrace_end now t s))"
  by (cases "0 < elements t") (simp_all add: coherent_end end_reject)

lemma live_start:
  "size_t_typed t \<Longrightarrow> live_count_ok t \<Longrightarrow> live_count_ok (fst (NamedSharedTrace_start now t))"
  by (cases "elements t < capacity t")
     (auto simp: NamedSharedTrace_start_def live_count_ok_def capacity_def size_t_inc_def Let_def
        intro: le_trans [OF mod_less_eq_dividend])

lemma live_end:
  "size_t_typed t \<Longrightarrow> live_count_ok t \<Longrightarrow> live_count_ok (fst (NamedSharedTrace_end now t s))"
proof (cases "0 < elements t")
  case False
  assume "live_count_ok t"
  with False show ?thesis by (simp add: end_reject)
next
  case True
  assume a: "size_t_typed t" "live_count_ok t"
  then have "elements t < SIZE_RANGE" by (simp add: size_t_typed_def)
  with True a show ?thesis
    by (simp add: NamedSharedTrace_end_def live_count_ok_def capacity_def size_t_dec_simp Let_def)
qed

lemma nst_inv_start: "nst_inv t \<Longrightarrow> nst_inv (fst (NamedSharedTrace_start now t))"
  by (simp add: nst_inv_def typed_start live_start coherent_start_any)

lemma nst_inv_end: "nst_inv t \<Longrightarrow> nst_inv (fst (NamedSharedTrace_end now t s))"
  by (simp add: nst_inv_def typed_end live_end coherent_end_any)

lemma nst_inv_init: "nst_inv (NamedSharedTrace_init sess name)"
  by (simp add: nst_inv_def size_t_typed_def live_count_ok_def cursors_coherent_def
      capacity_def NamedSharedTrace_init_def TRACE_SIZE_INIT_def SIZE_RANGE_def)

lemma capacity_start: "capacity (fst (NamedSharedTrace_start now t)) = capacity t"
  by (simp add: NamedSharedTrace_start_def capacity_def Let_def)

lemma capacity_end: "capacity (fst (NamedSharedTrace_end now t s)) = capacity t"
  by (simp add: NamedSharedTrace_end_def capacity_def Let_def)

lemma name_start: "shared_trace_name (fst (NamedSharedTrace_start now t)) = shared_trace_name t"
  by (simp add: NamedSharedTrace_start_def Let_def)

lemma name_end: "shared_trace_name (fst (NamedSharedTrace_end now t s)) = shared_trace_name t"
  by (simp add: NamedSharedTrace_end_def Let_def)

lemma length_pending: "length (pending t) = elements t"
  by (simp add: pending_def)

lemma ring_slots_distinct:
  fixes c :: nat
  assumes "i < e" "e < c" "(p + i) mod c = (p + e) mod c"
  shows False
proof -
  have "p + i \<le> p + e" using assms by simp
  then have "c dvd (p + e) - (p + i)"
    using assms(3) by (metis mod_eq_dvd_iff_nat)
  then have "c dvd e - i" by simp
  moreover have "0 < e - i" "e - i < c" using assms by auto
  ultimately show False by (meson dvd_imp_le not_less)
qed

lemma pending_start:
  assumes "nst_inv t" "elements t < capacity t"
  shows "pending (fst (NamedSharedTrace_start now t)) = pending t @ [now]"
proof -
  let ?c = "capacity t" and ?p = "counter_pop t" and ?e = "elements t"
  have ty: "size_t_typed t" and co: "cursors_coherent t"
    using assms by (simp_all add: nst_inv_def)
  have push: "counter_push t = (?p + ?e) mod ?c" "counter_push t < ?c"
    using co by (simp_all add: cursors_coherent_def)
  have len: "counter_push t < length (start_times t)"
    using push by (simp add: capacity_def)
  have old: "(start_times t)[counter_push t := now] ! ((?p + i) mod ?c)
               = start_times t ! ((?p + i) mod ?c)" if "i < ?e" for i
  proof -
    have "(?p + i) mod ?c \<noteq> (?p + ?e) mod ?c"
      using ring_slots_distinct [OF that assms(2)] by blast
    then show ?thesis using push by simp
  qed
  have new: "(start_times t)[counter_push t := now] ! ((?p + ?e) mod ?c) = now"
    using push len by simp
  have "pending (fst (NamedSharedTrace_start now t))
          = map (\<lambda>i. (start_times t)[counter_push t := now] ! ((?p + i) mod ?c)) [0..<Suc ?e]"
    using ty assms(2) push by (simp add: start_accept pending_def capacity_def)
  also have "\<dots> = map (\<lambda>i. start_times t ! ((?p + i) mod ?c)) [0..<?e] @ [now]"
    using old new by simp
  finally show ?thesis by (simp add: pending_def)
qed

lemma pending_end:
  assumes "nst_inv t" "0 < elements t"
  shows "pending (fst (NamedSharedTrace_end now t s)) = tl (pending t)"
    and "start_times t ! counter_pop t = hd (pending t)"
proof -
  let ?c = "capacity t" and ?p = "counter_pop t" and ?e = "elements t"
  have ty: "size_t_typed t" and co: "cursors_coherent t"
    using assms by (simp_all add: nst_inv_def)
  have pop: "?p < ?c" using co by (simp add: cursors_coherent_def)
  have "pending (fst (NamedSharedTrace_end now t s))
          = map (\<lambda>i. start_times t ! (((?p + 1) mod ?c + i) mod ?c)) [0..<?e - 1]"
    using ty assms(2) pop by (simp add: end_accept pending_def capacity_def)
  also have "\<dots> = map (\<lambda>i. start_times t ! ((?p + Suc i) mod ?c)) [0..<?e - 1]"
    by (simp add: mod_add_left_eq)
  also have "\<dots> = map (\<lambda>i. start_times t ! ((?p + i) mod ?c)) (map Suc [0..<?e - 1])"
    by (simp add: comp_def)
  also have "map Suc [0..<?e - 1] = tl [0..<?e]"
    using assms(2) by (metis Suc_diff_1 map_Suc_upt tl_upt)
  finally show "pending (fst (NamedSharedTrace_end now t s)) = tl (pending t)"
    by (simp add: pending_def flip: map_tl)
  show "start_times t ! counter_pop t = hd (pending t)"
    using assms(2) pop by (simp add: pending_def upt_conv_Cons)
qed

lemma run_calls_refines:
  "nst_inv t \<Longrightarrow> run_calls cs (t, s, err) = (t', s', err') \<Longrightarrow>
     nst_inv t' \<and> capacity t' = capacity t \<and> shared_trace_name t' = shared_trace_name t
     \<and> fifo_run (capacity t) (shared_trace_name t) cs (pending t, s) = (pending t', s')"
proof (induction cs arbitrary: t s err)
  case Nil
  then show ?case by simp
next
  case (Cons c cs)
  show ?case
  proof (cases c)
    case (CallStart now)
    obtain t1 w where st: "NamedSharedTrace_start now t = (t1, w)" by fastforce
    then have t1: "t1 = fst (NamedSharedTrace_start now t)" by simp
    have inv1: "nst_inv t1" using Cons.prems(1) t1 by (simp add: nst_inv_start)
    have run: "run_calls cs (t1, s, err @ w) = (t', s', err')"
      using Cons.prems(2) CallStart st by simp
    have p1: "pending t1 = (if capacity t \<le> length (pending t) then pending t else pending t @ [now])"
    proof (cases "elements t < capacity t")
      case True
      then show ?thesis using Cons.prems(1) t1 by (simp add: pending_start length_pending)
    next
      case False
      then show ?thesis using t1 by (simp add: start_reject length_pending)
    qed
    from Cons.IH [OF inv1 run] p1 show ?thesis
      by (simp add: CallStart t1 capacity_start name_start)
  next
    case (CallEnd now)
    obtain t1 s1 w where en: "NamedSharedTrace_end now t s = (t1, s1, w)"
      by (metis prod_cases3)
    then have t1: "t1 = fst (NamedSharedTrace_end now t s)" by simp
    have inv1: "nst_inv t1" using Cons.prems(1) t1 by (simp add: nst_inv_end)
    have run: "run_calls cs (t1, s1, err @ w) = (t', s', err')"
      using Cons.prems(2) CallEnd en by simp
    from Cons.IH [OF inv1 run]
    have ih: "nst_inv t'" "capacity t' = capacity t" "shared_trace_name t' = shared_trace_name t"
      "fifo_run (capacity t) (shared_trace_name t) cs (pending t1, s1) = (pending t', s')"
      by (simp_all add: t1 capacity_end name_end)
    show ?thesis
    proof (cases "0 < elements t")
      case False
      then have "pending t = []" "t1 = t" "s1 = s"
        using en by (simp_all add: pending_def end_reject)
      with ih show ?thesis by (simp add: CallEnd)
    next
      case True
      have ty: "size_t_typed t" and co: "cursors_coherent t"
        using Cons.prems(1) by (simp_all add: nst_inv_def)
      have pop: "counter_pop t < capacity t" using co by (simp add: cursors_coherent_def)
      have s1: "s1 = register_trace (shared_trace_name t) (hd (pending t)) now s"
        using en True ty pop pending_end(2) [OF Cons.prems(1) True]
        by (simp add: end_accept)
      have ne: "pending t \<noteq> []" using True length_pending [of t] by auto
      have "pending t = hd (pending t) # pending t1"
        using ne pending_end(1) [OF Cons.prems(1) True, of now s] t1 by simp
      then obtain p where p: "pending t = p # pending t1" "hd (pending t) = p" by simp
      with ih s1 show ?thesis by (simp add: CallEnd)
    qed
  qed
qed


lemma fifo_run_starts:
  "length q \<le> cap \<Longrightarrow>
     fifo_run cap name (map CallStart nows) (q, s) = (take cap (q @ nows), s)"
proof (induction nows arbitrary: q)
  case Nil
  then show ?case by simp
next
  case (Cons now nows)
  show ?case
  proof (cases "cap \<le> length q")
    case True
    with Cons.prems have "length q = cap" by simp
    with Cons.IH [of q] show ?thesis by simp
  next
    case False
    with Cons.IH [of "q @ [now]"] show ?thesis by simp
  qed
qed

lemma fifo_run_ends:
  "fifo_run cap name (map CallEnd ends) (q, s) = (q', s') \<Longrightarrow>
     q' = drop (length ends) q
     \<and> s' = s\<lparr>trace_queue := trace_queue s
                @ map (matched name (session_start_time s)) (zip q ends)\<rparr>"
proof (induction ends arbitrary: q s)
  case Nil
  then show ?case by simp
next
  case (Cons e ends)
  note ih = Cons.IH and pr = Cons.prems
  show ?case
  proof (cases q)
    case Nil
    with pr have "fifo_run cap name (map CallEnd ends) ([], s) = (q', s')"
      by simp
    from ih [OF this] Nil show ?thesis by simp
  next
    case (Cons p rest)
    with pr
    have "fifo_run cap name (map CallEnd ends) (rest, register_trace name p e s) = (q', s')"
      by simp
    from ih [OF this] Cons show ?thesis
      by (simp add: register_trace_def matched_def)
  qed
qed

lemma run_calls_starts_err:
  "size_t_typed t \<Longrightarrow> live_count_ok t \<Longrightarrow>
   run_calls (map CallStart nows) (t, s, err) = (t1, s1, err1) \<Longrightarrow>
     s1 = s \<and> err1 = err @ replicate (length nows - (capacity t - elements t)) warning_full"
proof (induction nows arbitrary: t err)
  case Nil
  then show ?case by simp
next
  case (Cons now nows)
  obtain t' w where st: "NamedSharedTrace_start now t = (t', w)" by fastforce
  then have t': "t' = fst (NamedSharedTrace_start now t)" by simp
  have ty: "size_t_typed t'" and lv: "live_count_ok t'"
    using Cons.prems t' by (simp_all add: typed_start live_start)
  have run: "run_calls (map CallStart nows) (t', s, err @ w) = (t1, s1, err1)"
    using Cons.prems(3) st by simp
  show ?case
  proof (cases "elements t < capacity t")
    case True
    then have w: "w = []" and el: "elements t' = elements t + 1"
      using Cons.prems(1) st
      by (auto simp: NamedSharedTrace_start_def capacity_def Let_def size_t_inc_simp size_t_typed_def)
    from Cons.IH [OF ty lv run] w el True show ?thesis
      by (simp add: t' capacity_start Suc_diff_le)
  next
    case False
    then have "t' = t" "w = [warning_full]"
      using st by (simp_all add: start_reject)
    with Cons.IH [OF ty lv run] False show ?thesis
      by (simp add: replicate_app_Cons_same)
  qed
qed

text \<open>
  Claim C3. A shared trace whose live count equals its capacity rejects \<open>start()\<close>:
  the call returns the trace as it is (buffer, both cursors, live count) and writes the
  warning. In particular, from a trace with no pending start, capacity + 5 consecutive
  starts leave exactly the first capacity instants pending and write five warnings, and
  capacity subsequent ends submit exactly capacity events, the pending starts matched
  in order with the ends.
\<close>

theorem start_on_full_buffer_rejected:
  assumes "nst_inv t" and "elements t = 0"
    and "length nows = capacity t + 5" and "length ends = capacity t"
    and "run_calls (map CallStart nows) (t, s, err) = (t1, s1, err1)"
    and "run_calls (map CallEnd ends) (t1, s1, err1) = (t2, s2, err2)"
  shows "(elements u = capacity u \<longrightarrow> NamedSharedTrace_start now u = (u, [warning_full]))
    \<and> elements t1 = capacity t \<and> pending t1 = take (capacity t) nows
    \<and> s1 = s \<and> err1 = err @ replicate 5 warning_full
    \<and> elements t2 = 0
    \<and> trace_queue s2 = trace_queue s
         @ map (matched (shared_trace_name t) (session_start_time s)) (zip (take (capacity t) nows) ends)
    \<and> length (trace_queue s2) = length (trace_queue s) + capacity t"
proof -
  have p0: "pending t = []" using assms(2) by (simp add: pending_def)
  from run_calls_refines [OF assms(1,5)]
  have r1: "nst_inv t1" "capacity t1 = capacity t" "shared_trace_name t1 = shared_trace_name t"
    "fifo_run (capacity t) (shared_trace_name t) (map CallStart nows) (pending t, s) = (pending t1, s1)"
    by simp_all
  have pend1: "pending t1 = take (capacity t) nows" and s1: "s1 = s"
    using r1(4) fifo_run_starts [of "[]" "capacity t" "shared_trace_name t" nows s] p0 by simp_all
  have el1: "elements t1 = capacity t"
    using length_pending [of t1] pend1 assms(3) by simp
  have "size_t_typed t" "live_count_ok t" using assms(1) by (simp_all add: nst_inv_def)
  from run_calls_starts_err [OF this assms(5)] assms(2,3)
  have err1: "err1 = err @ replicate 5 warning_full" by simp
  from run_calls_refines [OF r1(1) assms(6)]
  have r2: "fifo_run (capacity t) (shared_trace_name t) (map CallEnd ends) (pending t1, s1) = (pending t2, s2)"
    by (simp add: r1)
  from fifo_run_ends [OF r2]
  have pend2: "pending t2 = drop (length ends) (pending t1)"
    and s2: "s2 = s1\<lparr>trace_queue := trace_queue s1
                @ map (matched (shared_trace_name t) (session_start_time s1)) (zip (pending t1) ends)\<rparr>"
    by simp_all
  have el2: "elements t2 = 0"
    using length_pending [of t2] pend2 pend1 assms(3,4) by simp
  have q2: "trace_queue s2 = trace_queue s
         @ map (matched (shared_trace_name t) (session_start_time s)) (zip (take (capacity t) nows) ends)"
    using s2 s1 pend1 by simp
  have "length (trace_queue s2) = length (trace_queue s) + capacity t"
    using q2 assms(3,4) by simp
  with el1 pend1 s1 err1 el2 q2 show ?thesis
    by (simp add: start_reject)
qed

lemmas nst_defs = NamedSharedTrace_start_def NamedSharedTrace_end_def size_t_inc_def
  size_t_dec_def SIZE_RANGE_def register_trace_def TraceSession_init_def small_trace_def Let_def

lemmas inv_defs = nst_inv_def size_t_typed_def live_count_ok_def cursors_coherent_def
  capacity_def SIZE_RANGE_def small_trace_def

lemma five_warnings:
  "replicate 5 warning_full
     = [warning_full, warning_full, warning_full, warning_full, warning_full]"
  by (simp add: numeral_eq_Suc)

theorem start_on_full_buffer_rejected_witness:
  "nst_inv small_trace \<and> elements small_trace = 0 \<and> capacity small_trace = 2
   \<and> run_calls (map CallStart [11, 12, 13, 14, 15, 16, 17])
        (small_trace, TraceSession_init ''f'' 10, [])
      = (small_trace\<lparr>start_times := [11, 12], elements := 2\<rparr>, TraceSession_init ''f'' 10,
         replicate 5 warning_full)
   \<and> run_calls (map CallEnd [21, 22])
        (small_trace\<lparr>start_times := [11, 12], elements := 2\<rparr>, TraceSession_init ''f'' 10,
         replicate 5 warning_full)
      = (small_trace\<lparr>start_times := [11, 12]\<rparr>,
         (TraceSession_init ''f'' 10)\<lparr>trace_queue :=
            [\<lparr>trace_name = ''x'', start_time = 1, end_time = 11\<rparr>,
             \<lparr>trace_name = ''x'', start_time = 2, end_time = 12\<rparr>]\<rparr>,
         replicate 5 warning_full)
   \<and> NamedSharedTrace_start 18 (small_trace\<lparr>start_times := [11, 12], elements := 2\<rparr>)
      = (small_trace\<lparr>start_times := [11, 12], elements := 2\<rparr>, [warning_full])
   \<and> pending (small_trace\<lparr>start_times := [11, 12], elements := 2\<rparr>) = [11, 12]"
proof -
  let ?s = "TraceSession_init ''f'' 10"
  let ?t1 = "small_trace\<lparr>start_times := [11, 12], elements := 2\<rparr>"
  let ?t2 = "small_trace\<lparr>start_times := [11, 12]\<rparr>"
  let ?s2 = "?s\<lparr>trace_queue :=
            [\<lparr>trace_name = ''x'', start_time = 1, end_time = 11\<rparr>,
             \<lparr>trace_name = ''x'', start_time = 2, end_time = 12\<rparr>]\<rparr>"
  have i: "nst_inv small_trace" by (simp add: inv_defs)
  have e: "elements small_trace = 0" by (simp add: small_trace_def)
  have c: "capacity small_trace = 2" by (simp add: capacity_def small_trace_def)
  have l1: "length [11, 12, 13, 14, 15, 16, 17 :: nanoseconds] = capacity small_trace + 5"
    by (simp add: c)
  have l2: "length [21, 22 :: nanoseconds] = capacity small_trace" by (simp add: c)
  have r1: "run_calls (map CallStart [11, 12, 13, 14, 15, 16, 17]) (small_trace, ?s, [])
      = (?t1, ?s, [] @ replicate 5 warning_full)"
    unfolding five_warnings by (simp add: nst_defs)
  have r2: "run_calls (map CallEnd [21, 22]) (?t1, ?s, [] @ replicate 5 warning_full)
      = (?t2, ?s2, [] @ replicate 5 warning_full)"
    unfolding five_warnings by (simp add: nst_defs)
  from start_on_full_buffer_rejected [OF i e l1 l2 r1 r2, of ?t1 18]
  have "NamedSharedTrace_start 18 ?t1 = (?t1, [warning_full])" and "pending ?t1 = [11, 12]"
    by (simp_all add: c capacity_def small_trace_def)
  with i e c r1 r2 show ?thesis by simp
qed

text \<open>
  Claim C4. On a shared trace whose live count is 0, \<open>end()\<close> changes nothing: the
  trace (cursors and live count included) and the session are returned as they are, no
  event is submitted, and the only output is the warning.
\<close>

theorem end_without_pending_start_ignored:
  "elements t = 0 \<Longrightarrow>
     NamedSharedTrace_end now t s = (t, s, [warning_unmatched])
     \<and> elements (fst (NamedSharedTrace_end now t s)) = 0
     \<and> trace_queue (fst (snd (NamedSharedTrace_end now t s))) = trace_queue s"
  by (simp add: end_reject)

theorem end_without_pending_start_ignored_witness:
  "elements small_trace = 0
   \<and> NamedSharedTrace_end 7 small_trace (TraceSession_init ''f'' 0)
       = (small_trace, TraceSession_init ''f'' 0, [warning_unmatched])"
proof -
  have e: "elements small_trace = 0" by (simp add: small_trace_def)
  from end_without_pending_start_ignored [OF e, where now = 7 and s = "TraceSession_init ''f'' 0"] e
  show ?thesis by simp
qed

text \<open>
  Claim C5. Matching is first-in first-out. For every sequence of calls on a shared
  trace that satisfies the invariant, the source produces the same session as the
  bounded queue of the specification run on the list of unmatched starts, oldest first.
  One step at a time: an accepted start appends its instant to that list, and an
  accepted end submits the event whose start is the head of the list, which is the slot
  at the head cursor, and removes it.
\<close>

theorem matching_is_fifo:
  assumes "nst_inv t" and "run_calls cs (t, s, err) = (t', s', err')"
  shows "fifo_run (capacity t) (shared_trace_name t) cs (pending t, s) = (pending t', s')
    \<and> (elements t < capacity t \<longrightarrow>
          pending (fst (NamedSharedTrace_start now t)) = pending t @ [now])
    \<and> (elements t \<noteq> 0 \<longrightarrow>
          start_times t ! counter_pop t = hd (pending t)
          \<and> snd (NamedSharedTrace_end now t s)
              = (register_trace (shared_trace_name t) (hd (pending t)) now s, [])
          \<and> pending (fst (NamedSharedTrace_end now t s)) = tl (pending t))"
proof -
  have ty: "size_t_typed t" and co: "cursors_coherent t"
    using assms(1) by (simp_all add: nst_inv_def)
  have pop: "counter_pop t < capacity t" using co by (simp add: cursors_coherent_def)
  have "fifo_run (capacity t) (shared_trace_name t) cs (pending t, s) = (pending t', s')"
    using run_calls_refines [OF assms] by simp
  moreover have "pending (fst (NamedSharedTrace_start now t)) = pending t @ [now]"
    if "elements t < capacity t"
    using pending_start [OF assms(1) that] .
  moreover have "start_times t ! counter_pop t = hd (pending t)
      \<and> snd (NamedSharedTrace_end now t s)
           = (register_trace (shared_trace_name t) (hd (pending t)) now s, [])
      \<and> pending (fst (NamedSharedTrace_end now t s)) = tl (pending t)"
    if "elements t \<noteq> 0"
  proof -
    from that have pos: "0 < elements t" by simp
    show ?thesis
      using pending_end(1) [OF assms(1) pos, of now s] pending_end(2) [OF assms(1) pos] ty pos pop
      by (simp add: end_accept)
  qed
  ultimately show ?thesis by blast
qed

theorem matching_is_fifo_witness:
  "nst_inv (small_trace\<lparr>start_times := [11, 0], counter_push := 1, elements := 1\<rparr>)
   \<and> run_calls [CallStart 13, CallEnd 16, CallStart 14, CallEnd 17, CallEnd 18, CallEnd 19]
        (small_trace\<lparr>start_times := [11, 0], counter_push := 1, elements := 1\<rparr>,
         TraceSession_init ''f'' 10, [])
      = (small_trace\<lparr>start_times := [14, 13], counter_push := 1, counter_pop := 1\<rparr>,
         (TraceSession_init ''f'' 10)\<lparr>trace_queue :=
            [\<lparr>trace_name = ''x'', start_time = 1, end_time = 6\<rparr>,
             \<lparr>trace_name = ''x'', start_time = 3, end_time = 7\<rparr>,
             \<lparr>trace_name = ''x'', start_time = 4, end_time = 8\<rparr>]\<rparr>,
         [warning_unmatched])
   \<and> fifo_run 2 ''x''
        [CallStart 13, CallEnd 16, CallStart 14, CallEnd 17, CallEnd 18, CallEnd 19]
        ([11], TraceSession_init ''f'' 10)
      = ([], (TraceSession_init ''f'' 10)\<lparr>trace_queue :=
            [\<lparr>trace_name = ''x'', start_time = 1, end_time = 6\<rparr>,
             \<lparr>trace_name = ''x'', start_time = 3, end_time = 7\<rparr>,
             \<lparr>trace_name = ''x'', start_time = 4, end_time = 8\<rparr>]\<rparr>)
   \<and> pending (fst (NamedSharedTrace_start 13
        (small_trace\<lparr>start_times := [11, 0], counter_push := 1, elements := 1\<rparr>)))
      = [11, 13]
   \<and> snd (NamedSharedTrace_end 16
        (small_trace\<lparr>start_times := [11, 0], counter_push := 1, elements := 1\<rparr>)
        (TraceSession_init ''f'' 10))
      = (register_trace ''x'' 11 16 (TraceSession_init ''f'' 10), [])"
proof -
  let ?t = "small_trace\<lparr>start_times := [11, 0], counter_push := 1, elements := 1\<rparr>"
  let ?t' = "small_trace\<lparr>start_times := [14, 13], counter_push := 1, counter_pop := 1\<rparr>"
  let ?s = "TraceSession_init ''f'' 10"
  let ?s' = "?s\<lparr>trace_queue :=
            [\<lparr>trace_name = ''x'', start_time = 1, end_time = 6\<rparr>,
             \<lparr>trace_name = ''x'', start_time = 3, end_time = 7\<rparr>,
             \<lparr>trace_name = ''x'', start_time = 4, end_time = 8\<rparr>]\<rparr>"
  let ?cs = "[CallStart 13, CallEnd 16, CallStart 14, CallEnd 17, CallEnd 18, CallEnd 19]"
  have i: "nst_inv ?t" by (simp add: inv_defs)
  have r: "run_calls ?cs (?t, ?s, []) = (?t', ?s', [warning_unmatched])"
    by (simp add: nst_defs)
  have p: "pending ?t = [11]" "pending ?t' = []" "capacity ?t = 2" "shared_trace_name ?t = ''x''"
    "elements ?t < capacity ?t" "elements ?t \<noteq> 0"
    by (simp_all add: pending_def capacity_def small_trace_def)
  from matching_is_fifo [OF i r, of 13] p
  have a: "fifo_run 2 ''x'' ?cs ([11], ?s) = ([], ?s')"
    and b: "pending (fst (NamedSharedTrace_start 13 ?t)) = [11, 13]"
    by simp_all
  from matching_is_fifo [OF i r, of 16] p
  have c: "snd (NamedSharedTrace_end 16 ?t ?s) = (register_trace ''x'' 11 16 ?s, [])"
    by simp
  from i r a b c show ?thesis by simp
qed

lemma run_calls_inv:
  assumes "nst_inv t"
  shows "nst_inv (fst (run_calls cs (t, s, err)))"
    and "capacity (fst (run_calls cs (t, s, err))) = capacity t"
proof -
  obtain t' s' err' where r: "run_calls cs (t, s, err) = (t', s', err')"
    by (metis prod_cases3)
  from run_calls_refines [OF assms r] r
  show "nst_inv (fst (run_calls cs (t, s, err)))"
    and "capacity (fst (run_calls cs (t, s, err))) = capacity t"
    by simp_all
qed

text \<open>
  Claim C6. The live count of a shared trace lies between 0 and the capacity: after
  construction, where the capacity is \<open>TRACE_SIZE_INIT = 100\<close>, after every
  sequence of \<open>start()\<close> and \<open>end()\<close> calls that follows, and across each single
  call on any trace whose counters fit \<^verbatim>\<open>size_t\<close>. A decrement below 0 would wrap
  to \<open>2^64 - 1\<close>, which is above every capacity.
\<close>

theorem live_count_bounded:
  "TRACE_SIZE_INIT = 100
   \<and> capacity (NamedSharedTrace_init sess name) = TRACE_SIZE_INIT
   \<and> live_count_ok (NamedSharedTrace_init sess name)
   \<and> live_count_ok (fst (run_calls cs (NamedSharedTrace_init sess name, s, err)))
   \<and> capacity (fst (run_calls cs (NamedSharedTrace_init sess name, s, err))) = TRACE_SIZE_INIT
   \<and> (size_t_typed t \<and> live_count_ok t \<longrightarrow>
         live_count_ok (fst (NamedSharedTrace_start now t))
         \<and> live_count_ok (fst (NamedSharedTrace_end now t s)))"
proof -
  have c: "capacity (NamedSharedTrace_init sess name) = TRACE_SIZE_INIT"
    by (simp add: capacity_def NamedSharedTrace_init_def)
  have "nst_inv (fst (run_calls cs (NamedSharedTrace_init sess name, s, err)))"
    by (rule run_calls_inv(1) [OF nst_inv_init])
  then have "live_count_ok (fst (run_calls cs (NamedSharedTrace_init sess name, s, err)))"
    by (simp add: nst_inv_def)
  moreover have "live_count_ok (NamedSharedTrace_init sess name)"
    using nst_inv_init [of sess name] by (simp add: nst_inv_def)
  moreover have "capacity (fst (run_calls cs (NamedSharedTrace_init sess name, s, err)))
      = TRACE_SIZE_INIT"
    using run_calls_inv(2) [OF nst_inv_init] c by simp
  ultimately show ?thesis
    using c by (simp add: TRACE_SIZE_INIT_def live_start live_end)
qed

theorem live_count_bounded_witness:
  "size_t_typed (small_trace\<lparr>start_times := [11, 12], elements := 2\<rparr>)
   \<and> live_count_ok (small_trace\<lparr>start_times := [11, 12], elements := 2\<rparr>)
   \<and> elements (fst (NamedSharedTrace_start 13
         (small_trace\<lparr>start_times := [11, 12], elements := 2\<rparr>))) = 2
   \<and> elements (fst (NamedSharedTrace_end 13
         (small_trace\<lparr>start_times := [11, 12], elements := 2\<rparr>)
         (TraceSession_init ''f'' 10))) = 1
   \<and> live_count_ok (fst (NamedSharedTrace_start 13
         (small_trace\<lparr>start_times := [11, 12], elements := 2\<rparr>)))
   \<and> live_count_ok (fst (NamedSharedTrace_end 13
         (small_trace\<lparr>start_times := [11, 12], elements := 2\<rparr>)
         (TraceSession_init ''f'' 10)))
   \<and> live_count_ok (fst (run_calls [CallEnd 1, CallStart 2, CallEnd 3]
         (NamedSharedTrace_init 0 ''x'', TraceSession_init ''f'' 10, [])))"
proof -
  let ?t = "small_trace\<lparr>start_times := [11, 12], elements := 2\<rparr>"
  have h: "size_t_typed ?t \<and> live_count_ok ?t" by (simp add: inv_defs)
  have e: "elements (fst (NamedSharedTrace_start 13 ?t)) = 2"
    "elements (fst (NamedSharedTrace_end 13 ?t (TraceSession_init ''f'' 10))) = 1"
    by (simp_all add: nst_defs)
  from live_count_bounded [of 0 "''x''" "[CallEnd 1, CallStart 2, CallEnd 3]"
      "TraceSession_init ''f'' 10" "[]" ?t 13] h e
  show ?thesis by simp
qed

text \<open>
  Claim C10. The cursors are coherent: \<open>counter_push = (counter_pop + elements) mod
  capacity\<close> with both cursors below the capacity. This holds after construction,
  after every sequence of calls that follows, and is preserved by each \<open>start()\<close>
  and \<open>end()\<close>, accepted or rejected, on any trace whose counters fit
  \<^verbatim>\<open>size_t\<close>. With it, the slot that \<open>end()\<close> reads at the head cursor holds
  the oldest unmatched start.
\<close>

theorem cursors_stay_coherent:
  "cursors_coherent (NamedSharedTrace_init sess name)
   \<and> cursors_coherent (fst (run_calls cs (NamedSharedTrace_init sess name, s, err)))
   \<and> (size_t_typed t \<and> cursors_coherent t \<longrightarrow>
         cursors_coherent (fst (NamedSharedTrace_start now t))
         \<and> cursors_coherent (fst (NamedSharedTrace_end now t s)))
   \<and> (size_t_typed t \<and> live_count_ok t \<and> cursors_coherent t \<and> elements t \<noteq> 0 \<longrightarrow>
         start_times t ! counter_pop t = hd (pending t))"
proof -
  have "nst_inv (fst (run_calls cs (NamedSharedTrace_init sess name, s, err)))"
    by (rule run_calls_inv(1) [OF nst_inv_init])
  then have "cursors_coherent (fst (run_calls cs (NamedSharedTrace_init sess name, s, err)))"
    by (simp add: nst_inv_def)
  moreover have "cursors_coherent (NamedSharedTrace_init sess name)"
    using nst_inv_init [of sess name] by (simp add: nst_inv_def)
  moreover have "start_times t ! counter_pop t = hd (pending t)"
    if "size_t_typed t \<and> live_count_ok t \<and> cursors_coherent t \<and> elements t \<noteq> 0"
    using that pending_end(2) [of t] by (simp add: nst_inv_def)
  ultimately show ?thesis
    by (simp add: coherent_start_any coherent_end_any)
qed

theorem cursors_stay_coherent_witness:
  "size_t_typed (small_trace\<lparr>start_times := [11, 12], counter_push := 1, counter_pop := 1,
       elements := 2\<rparr>)
   \<and> live_count_ok (small_trace\<lparr>start_times := [11, 12], counter_push := 1, counter_pop := 1,
       elements := 2\<rparr>)
   \<and> cursors_coherent (small_trace\<lparr>start_times := [11, 12], counter_push := 1,
       counter_pop := 1, elements := 2\<rparr>)
   \<and> fst (NamedSharedTrace_end 13
         (small_trace\<lparr>start_times := [11, 12], counter_push := 1, counter_pop := 1,
            elements := 2\<rparr>) (TraceSession_init ''f'' 10))
       = small_trace\<lparr>start_times := [11, 12], counter_push := 1, counter_pop := 0,
            elements := 1\<rparr>
   \<and> cursors_coherent (small_trace\<lparr>start_times := [11, 12], counter_push := 1,
       counter_pop := 0, elements := 1\<rparr>)
   \<and> hd (pending (small_trace\<lparr>start_times := [11, 12], counter_push := 1, counter_pop := 1,
       elements := 2\<rparr>)) = 12"
proof -
  let ?t = "small_trace\<lparr>start_times := [11, 12], counter_push := 1, counter_pop := 1,
       elements := 2\<rparr>"
  let ?s = "TraceSession_init ''f'' 10"
  have h: "size_t_typed ?t" "live_count_ok ?t" "cursors_coherent ?t" "elements ?t \<noteq> 0"
    by (simp_all add: inv_defs mod_Suc)
  have e: "fst (NamedSharedTrace_end 13 ?t ?s)
       = small_trace\<lparr>start_times := [11, 12], counter_push := 1, counter_pop := 0,
            elements := 1\<rparr>"
    by (simp add: nst_defs)
  have n: "start_times ?t ! counter_pop ?t = 12" by (simp add: small_trace_def)
  from cursors_stay_coherent [of 0 "''x''" "[]" ?s "[]" ?t 13] h e n
  show ?thesis by simp
qed

section \<open>The registry\<close>

text \<open>
  Claim C9. For an identifier that is not registered, \<open>startTrace\<close> and
  \<open>endTrace\<close> return the world as it is: the map of shared traces, every session
  and the error stream are unchanged.
\<close>

theorem unknown_identifier_ignored:
  "traces w ident = None \<Longrightarrow> startTrace ident now w = w \<and> endTrace ident now w = w"
  by (simp add: startTrace_def endTrace_def)

theorem unknown_identifier_ignored_witness:
  "traces (registerTrace ''a'' 0 empty_world) ''b'' = None
   \<and> startTrace ''b'' 5 (registerTrace ''a'' 0 empty_world) = registerTrace ''a'' 0 empty_world
   \<and> endTrace ''b'' 6 (registerTrace ''a'' 0 empty_world) = registerTrace ''a'' 0 empty_world"
proof -
  have h: "traces (registerTrace ''a'' 0 empty_world) ''b'' = None"
    by (simp add: registerTrace_def empty_world_def)
  from unknown_identifier_ignored [OF h, of 5] unknown_identifier_ignored [OF h, of 6] h
  show ?thesis by simp
qed


end
